theory Spec2Isabelle
  imports Complex_Main "HOL-Library.Multiset"
begin

section \<open>Lecture-slide generator scripts: the computational fragments\<close>

text \<open>
  The repository is a set of standalone Python plotting scripts.  This development
  embeds the few fragments that compute something (Pr\"ufer decoding, softmax, the
  gradient-descent trajectory, the attention matrix, rewired-edge detection), and the
  control flow of the runner and downloader scripts (sequential loops with
  \<^verbatim>\<open>try/except Exception\<close>).
\<close>

subsection \<open>Graphs as networkx keeps them\<close>

text \<open>
  \<^verbatim>\<open>nx.Graph\<close> is an undirected simple graph: a node container in insertion order and a
  set of unordered edges.  The record keeps the nodes in insertion order and one
  representative pair per edge; \<^verbatim>\<open>G.edges()\<close> reports each edge once, as a pair.
\<close>

record graph =
  nodes :: "nat list"
  edges :: "(nat \<times> nat) list"

text \<open>\<^verbatim>\<open>frozenset(e)\<close> of a pair \<^verbatim>\<open>e = (u, v)\<close>: the unordered endpoint set.\<close>

definition frozenset :: "nat \<times> nat \<Rightarrow> nat set" where
  "frozenset e = {fst e, snd e}"

subsection \<open>\<^verbatim>\<open>gen_07_small_world.detect_rewired_edges\<close>\<close>

text \<open>
  \<^verbatim>\<open>
  def detect_rewired_edges(G_regular, G_rewired):
      regular_set = set(frozenset(e) for e in G_regular.edges())
      kept = []
      rewired = []
      for e in G_rewired.edges():
          if frozenset(e) in regular_set:
              kept.append(e)
          else:
              rewired.append(e)
      return kept, rewired
  \<close>
  The loop is a recursion over the edge list carrying the two result lists.
\<close>

fun detect_loop ::
  "nat set set \<Rightarrow> (nat \<times> nat) list \<Rightarrow> (nat \<times> nat) list \<times> (nat \<times> nat) list
    \<Rightarrow> (nat \<times> nat) list \<times> (nat \<times> nat) list" where
  "detect_loop regular_set [] (kept, rewired) = (kept, rewired)"
| "detect_loop regular_set (e # es) (kept, rewired) =
     (if frozenset e \<in> regular_set
      then detect_loop regular_set es (kept @ [e], rewired)
      else detect_loop regular_set es (kept, rewired @ [e]))"

definition detect_rewired_edges :: "graph \<Rightarrow> graph \<Rightarrow> (nat \<times> nat) list \<times> (nat \<times> nat) list" where
  "detect_rewired_edges G_regular G_rewired =
     (let regular_set = set (map frozenset (edges G_regular))
      in detect_loop regular_set (edges G_rewired) ([], []))"

lemma detect_loop_filter:
  "detect_loop rs es (kept, rewired) =
     (kept @ filter (\<lambda>e. frozenset e \<in> rs) es, rewired @ filter (\<lambda>e. frozenset e \<notin> rs) es)"
  by (induction es arbitrary: kept rewired) simp_all

lemma detect_rewired_edges_filter:
  "detect_rewired_edges G_regular G_rewired =
     (filter (\<lambda>e. frozenset e \<in> frozenset ` set (edges G_regular)) (edges G_rewired),
      filter (\<lambda>e. frozenset e \<notin> frozenset ` set (edges G_regular)) (edges G_rewired))"
  by (simp add: detect_rewired_edges_def detect_loop_filter)

text \<open>
  Claim C6.  \<^verbatim>\<open>detect_rewired_edges(G_regular, G_rewired)\<close> partitions the edges of
  \<^verbatim>\<open>G_rewired\<close>: the two returned lists together hold every reported edge exactly as
  often as \<^verbatim>\<open>G_rewired.edges()\<close> reports it and share no edge; \<^verbatim>\<open>kept\<close> holds precisely
  the edges whose unordered endpoint pair is the endpoint pair of an edge of
  \<^verbatim>\<open>G_regular\<close> (orientation ignored), in the order of \<^verbatim>\<open>G_rewired.edges()\<close>, and
  \<^verbatim>\<open>rewired\<close> holds the rest; comparing a graph with itself gives an empty
  \<^verbatim>\<open>rewired\<close> list and keeps every edge.
\<close>

theorem detect_rewired_edges_partition:
  "(case detect_rewired_edges G_regular G_rewired of
      (kept, rewired) \<Rightarrow>
        mset kept + mset rewired = mset (edges G_rewired)
      \<and> set kept \<inter> set rewired = {}
      \<and> set kept = {e \<in> set (edges G_rewired).
            \<exists>r \<in> set (edges G_regular). {fst e, snd e} = {fst r, snd r}}
      \<and> set rewired = {e \<in> set (edges G_rewired).
            \<not> (\<exists>r \<in> set (edges G_regular). {fst e, snd e} = {fst r, snd r})}
      \<and> kept = filter (\<lambda>e. \<exists>r \<in> set (edges G_regular). {fst e, snd e} = {fst r, snd r})
            (edges G_rewired)
      \<and> rewired = filter (\<lambda>e. \<not> (\<exists>r \<in> set (edges G_regular). {fst e, snd e} = {fst r, snd r}))
            (edges G_rewired))
   \<and> detect_rewired_edges G G = (edges G, [])"
proof -
  let ?P = "\<lambda>e. \<exists>r \<in> set (edges G_regular). {fst e, snd e} = {fst r, snd r}"
  have mem: "(frozenset e \<in> frozenset ` set (edges G_regular)) = ?P e" for e
    by (auto simp: frozenset_def image_iff)
  have split: "detect_rewired_edges G_regular G_rewired =
      (filter ?P (edges G_rewired), filter (\<lambda>e. \<not> ?P e) (edges G_rewired))"
    unfolding detect_rewired_edges_filter mem ..
  have self: "detect_rewired_edges G G = (edges G, [])"
    unfolding detect_rewired_edges_filter by (simp add: filter_empty_conv)
  have part: "mset (filter ?P es) + mset (filter (\<lambda>e. \<not> ?P e) es) = mset es" for es
    by (induction es) simp_all
  show ?thesis
    unfolding split using self part by auto
qed

theorem detect_rewired_edges_partition_witness:
  "detect_rewired_edges
     \<lparr>nodes = [0, 1, 2, 3], edges = [(0, 1), (1, 2), (2, 3)]\<rparr>
     \<lparr>nodes = [0, 1, 2, 3], edges = [(1, 0), (3, 1), (3, 2)]\<rparr>
   = ([(1, 0), (3, 2)], [(3, 1)])"
  using detect_rewired_edges_partition
    [of "\<lparr>nodes = [0, 1, 2, 3], edges = [(0, 1), (1, 2), (2, 3)]\<rparr>"
        "\<lparr>nodes = [0, 1, 2, 3], edges = [(1, 0), (3, 1), (3, 2)]\<rparr>"]
  by (simp add: detect_rewired_edges_def frozenset_def doubleton_eq_iff)

subsection \<open>Effects: outcomes of library calls, and what a script prints\<close>

text \<open>
  The scripts guard their library calls with \<^verbatim>\<open>try: ... except Exception\<close>.  A call either
  returns a value or raises an instance of Python's \<^verbatim>\<open>Exception\<close>, which carries its
  message.  (Asynchronous interrupts of the interpreter are not calls of the program and
  are outside the model.)  \<^verbatim>\<open>print\<close> and \<^verbatim>\<open>os.makedirs(..., exist_ok=True)\<close> are recorded in
  the output and taken to succeed.
\<close>

datatype py_exception = PyException string

datatype 'a outcome = Returns 'a | Raises py_exception

text \<open>
  One constructor per \<^verbatim>\<open>print\<close> statement (and per traceback or directory creation),
  carrying the values the f-string interpolates.
\<close>

datatype event =
    Makedirs string
  | Rule
  | Title nat string
  | OutputDirectory string
  | Generating nat nat string
  | Traceback py_exception
  | Done
  | Failed
  | Generated nat nat
  | FailedNames "string list"
  | Downloading string string
  | Saved string nat
  | Warning string py_exception
  | ManualDownload string
  | SaveTo string
  | Blank
  | Downloaded nat nat string
  | SeeWarnings

text \<open>\<^verbatim>\<open>os.path.join\<close> on POSIX paths: an absolute component restarts the path.\<close>

definition path_join2 :: "string \<Rightarrow> string \<Rightarrow> string" where
  "path_join2 a b =
     (if b \<noteq> [] \<and> hd b = CHR ''/'' then b
      else if a = [] \<or> last a = CHR ''/'' then a @ b
      else a @ ''/'' @ b)"

definition os_path_join :: "string \<Rightarrow> string list \<Rightarrow> string" where
  "os_path_join a bs = foldl path_join2 a bs"

subsection \<open>The runner scripts \<^verbatim>\<open>generate_all.py\<close>\<close>

text \<open>
  An imported module either lacks the attribute \<^verbatim>\<open>main\<close> or has one, whose call has an
  outcome.  \<^verbatim>\<open>importlib.import_module\<close> itself may raise: the module is missing, or its
  top-level code raises.
\<close>

datatype module = Module "(unit outcome) option"

type_synonym importer = "string \<Rightarrow> module outcome"

text \<open>
  \<^verbatim>\<open>
  def run_script(module_name: str) -> bool:
      try:
          mod = importlib.import_module(module_name)
          if hasattr(mod, 'main'):
              mod.main()
          else:
              pass
          return True
      except Exception:
          traceback.print_exc()
          return False
  \<close>
  The result is the returned flag together with what was printed.
\<close>

fun run_script :: "importer \<Rightarrow> string \<Rightarrow> bool \<times> event list" where
  "run_script import_module module_name =
     (case import_module module_name of
        Raises e \<Rightarrow> (False, [Traceback e])
      | Returns (Module None) \<Rightarrow> (True, [])
      | Returns (Module (Some (Returns _))) \<Rightarrow> (True, [])
      | Returns (Module (Some (Raises e))) \<Rightarrow> (False, [Traceback e]))"

text \<open>
  The loop of \<^verbatim>\<open>main\<close>:
  \<^verbatim>\<open>
      for i, script_name in enumerate(SCRIPTS, 1):
          print(f'[{i}/{total}] Generating {script_name} ...')
          ok = run_script(script_name)
          if ok:
              print(f'        Done.\n')
              successes += 1
          else:
              print(f'        FAILED.\n')
              failures.append(script_name)
  \<close>
  The state is \<^verbatim>\<open>(successes, failures)\<close> and the output so far.
\<close>

fun main_loop ::
  "importer \<Rightarrow> nat \<Rightarrow> nat \<Rightarrow> string list \<Rightarrow> nat \<times> string list \<times> event list
    \<Rightarrow> nat \<times> string list \<times> event list" where
  "main_loop import_module total_n i [] st = st"
| "main_loop import_module total_n i (script_name # rest) (successes, failures, out) =
     (let out1 = out @ [Generating i total_n script_name];
          (ok, printed) = run_script import_module script_name
      in if ok
         then main_loop import_module total_n (i + 1) rest
                (successes + 1, failures, out1 @ printed @ [Done])
         else main_loop import_module total_n (i + 1) rest
                (successes, failures @ [script_name], out1 @ printed @ [Failed]))"

text \<open>
  \<^verbatim>\<open>main\<close> of a runner (\<open>total_n\<close> is the source's \<^verbatim>\<open>total\<close>).  The two runners differ in the list \<^verbatim>\<open>SCRIPTS\<close> and in the
  lecture's name in the title line only, so these are parameters; \<^verbatim>\<open>script_dir\<close> is the
  directory of the runner file.  The result is the exit code and the output.
\<close>

definition runner_main ::
  "string \<Rightarrow> string list \<Rightarrow> string \<Rightarrow> importer \<Rightarrow> int \<times> event list" where
  "runner_main lecture SCRIPTS script_dir import_module =
     (let IMAGES_DIR = os_path_join script_dir [''..'', ''images''];
          total_n = length SCRIPTS;
          out0 = [Makedirs IMAGES_DIR, Rule, Title total_n lecture, OutputDirectory IMAGES_DIR, Rule];
          (successes, failures, out1) = main_loop import_module total_n 1 SCRIPTS (0, [], out0);
          out2 = out1 @ [Rule, Generated successes total_n]
                  @ (if failures \<noteq> [] then [FailedNames failures] else []) @ [Rule]
      in (if failures = [] then 0 else 1, out2))"

definition SCRIPTS_lecture_08 :: "string list" where
  "SCRIPTS_lecture_08 =
    [''gen_01_konigsberg'', ''gen_02_konigsberg_graph'', ''gen_03_euler_path'',
     ''gen_04_cayley_trees'', ''gen_05_parse_tree'', ''gen_06_random_graph'',
     ''gen_07_small_world'', ''gen_08_six_degrees'', ''gen_09_pagerank'',
     ''gen_10_pagerank_surfer'', ''gen_11_nn_architectures'', ''gen_12_attention'',
     ''gen_13_knowledge_graph'', ''gen_14_rag_pipeline'', ''gen_15_gnn_message'',
     ''gen_16_molecule'', ''gen_17_timeline'', ''gen_18_milgram_letters'',
     ''gen_19_graphrag_concept'']"

definition SCRIPTS_lecture_new_v2 :: "string list" where
  "SCRIPTS_lecture_new_v2 =
    [''gen_01_five_pillars_overview'', ''gen_02_word_vectors'', ''gen_03_softmax'',
     ''gen_04_galton_board'', ''gen_05_gradient_descent'', ''gen_06_cross_entropy'',
     ''gen_07_shannon_diagram'', ''gen_08_optimizers'', ''gen_09_scaling_laws'',
     ''gen_10_convergence'', ''gen_11_timeline'', ''gen_12_embedding_space'',
     ''gen_13_loss_curve'', ''gen_14_attention_heatmap'', ''gen_15_hero_neural_net'',
     ''gen_16_token_pipeline'', ''gen_17_matrix_multiply'', ''gen_18_backprop_flow'',
     ''gen_19_radar_pillars'', ''gen_20_section_icons'']"

definition main_lecture_08 :: "string \<Rightarrow> importer \<Rightarrow> int \<times> event list" where
  "main_lecture_08 = runner_main ''lecture-08'' SCRIPTS_lecture_08"

definition main_lecture_new_v2 :: "string \<Rightarrow> importer \<Rightarrow> int \<times> event list" where
  "main_lecture_new_v2 = runner_main ''lecture-new'' SCRIPTS_lecture_new_v2"

text \<open>The names announced by the \<^verbatim>\<open>Generating\<close> lines of an output, in order.\<close>

fun announced :: "event list \<Rightarrow> (nat \<times> string) list" where
  "announced [] = []"
| "announced (Generating i total_n name # out) = (i, name) # announced out"
| "announced (ev # out) = announced out"

text \<open>A script succeeds when neither its import nor its \<^verbatim>\<open>main\<close> (if any) raises.\<close>

definition raises_nothing :: "importer \<Rightarrow> string \<Rightarrow> bool" where
  "raises_nothing import_module name =
     (case import_module name of
        Raises e \<Rightarrow> False
      | Returns (Module None) \<Rightarrow> True
      | Returns (Module (Some r)) \<Rightarrow> (case r of Returns u \<Rightarrow> True | Raises e \<Rightarrow> False))"

text \<open>
  The Python files of the three script directories, as the repository has them.
\<close>

definition dir_lecture_08 :: "string list" where
  "dir_lecture_08 =
    [''gen_01_konigsberg.py'', ''gen_02_konigsberg_graph.py'', ''gen_03_euler_path.py'',
     ''gen_04_cayley_trees.py'', ''gen_05_parse_tree.py'', ''gen_06_random_graph.py'',
     ''gen_07_small_world.py'', ''gen_08_six_degrees.py'', ''gen_09_pagerank.py'',
     ''gen_10_pagerank_surfer.py'', ''gen_11_nn_architectures.py'', ''gen_12_attention.py'',
     ''gen_13_knowledge_graph.py'', ''gen_14_rag_pipeline.py'', ''gen_15_gnn_message.py'',
     ''gen_16_molecule.py'', ''gen_17_timeline.py'', ''gen_18_milgram_letters.py'',
     ''gen_19_graphrag_concept.py'', ''gen_20_attention_heatmap.py'',
     ''gen_21_multihead_attention.py'', ''gen_22_sparse_dense_attention.py'',
     ''gen_23_gnn_vs_transformer.py'', ''gen_24_emergence.py'',
     ''gen_25_math_constellation.py'', ''gen_26_attention_derivation.py'',
     ''gen_27_llm_cross_section.py'', ''gen_28_scaling_laws.py'', ''gen_29_five_pillars.py'',
     ''generate_all.py'']"

definition dir_lecture_new :: "string list" where
  "dir_lecture_new =
    [''download_portraits.py'', ''gen_02_word_vectors.py'', ''gen_04_galton_board.py'',
     ''gen_10_convergence.py'', ''gen_11_timeline.py'', ''gen_15_hero_neural_net.py'',
     ''gen_16_token_pipeline.py'', ''gen_18_backprop_flow.py'', ''gen_19_radar_pillars.py'',
     ''gen_20_section_icons.py'']"

definition dir_lecture_new_v2 :: "string list" where
  "dir_lecture_new_v2 =
    [''download_external.py'', ''gen_01_five_pillars_overview.py'', ''gen_03_softmax.py'',
     ''gen_05_gradient_descent.py'', ''gen_06_cross_entropy.py'',
     ''gen_07_shannon_diagram.py'', ''gen_08_optimizers.py'', ''gen_09_scaling_laws.py'',
     ''gen_12_embedding_space.py'', ''gen_13_loss_curve.py'',
     ''gen_14_attention_heatmap.py'', ''gen_17_matrix_multiply.py'', ''generate_all.py'']"

text \<open>
  \<^verbatim>\<open>main\<close> puts the runner's directory first on \<^verbatim>\<open>sys.path\<close>, so
  \<^verbatim>\<open>importlib.import_module(name)\<close> executes \<^verbatim>\<open>name.py\<close> of that directory (\<open>load\<close> is what
  executing it does) and raises \<^verbatim>\<open>ModuleNotFoundError\<close> when there is no such file: the
  names \<^verbatim>\<open>gen_*\<close> are no modules of the standard library.
\<close>

definition import_from :: "string list \<Rightarrow> (string \<Rightarrow> module outcome) \<Rightarrow> importer" where
  "import_from dir load name =
     (if name @ ''.py'' \<in> set dir then load name
      else Raises (PyException ''ModuleNotFoundError''))"

text \<open>The listed module names that have no file in a directory.\<close>

definition missing_scripts :: "string list \<Rightarrow> string list \<Rightarrow> string list" where
  "missing_scripts dir SCRIPTS = filter (\<lambda>name. name @ ''.py'' \<notin> set dir) SCRIPTS"

text \<open>An importer for the examples: one module without \<^verbatim>\<open>main\<close>, one whose \<^verbatim>\<open>main\<close> raises,
  one whose import raises; every other module has a \<^verbatim>\<open>main\<close> that returns.\<close>

definition demo_import :: importer where
  "demo_import name =
     (if name = ''gen_04_cayley_trees'' then Returns (Module None)
      else if name = ''gen_09_pagerank'' then Returns (Module (Some (Raises (PyException ''boom''))))
      else if name = ''gen_12_attention'' then Raises (PyException ''ImportError'')
      else Returns (Module (Some (Returns ()))))"

lemma run_script_ok: "fst (run_script imp n) = raises_nothing imp n"
  by (simp add: raises_nothing_def split: outcome.splits module.splits option.splits)

lemma announced_append: "announced (xs @ ys) = announced xs @ announced ys"
  by (induction xs rule: announced.induct) simp_all

lemma announced_run_script: "announced (snd (run_script imp n)) = []"
  by (simp split: outcome.splits module.splits option.splits)

lemma main_loop_result:
  "main_loop imp t i S (s, f, out) = (s', f', out') \<Longrightarrow>
     s' = s + length (filter (raises_nothing imp) S)
   \<and> f' = f @ filter (\<lambda>n. \<not> raises_nothing imp n) S
   \<and> announced out' = announced out @ zip [i ..< i + length S] S"
proof (induction S arbitrary: i s f out)
  case Nil
  then show ?case by simp
next
  case (Cons n S)
  obtain ok printed where rs: "run_script imp n = (ok, printed)"
    by (cases "run_script imp n")
  have ok: "ok = raises_nothing imp n"
    using run_script_ok [of imp n] rs by simp
  have pr: "announced printed = []"
    using announced_run_script [of imp n] rs by simp
  have up: "[i ..< i + length (n # S)] = i # [Suc i ..< Suc i + length S]"
    by (simp add: upt_rec)
  show ?case
  proof (cases ok)
    case True
    with Cons.prems rs
    have "main_loop imp t (i + 1) S (s + 1, f, (out @ [Generating i t n]) @ printed @ [Done])
            = (s', f', out')"
      by simp
    from Cons.IH [OF this] True ok pr up show ?thesis
      by (simp add: announced_append)
  next
    case False
    with Cons.prems rs
    have "main_loop imp t (i + 1) S (s, f @ [n], (out @ [Generating i t n]) @ printed @ [Failed])
            = (s', f', out')"
      by simp
    from Cons.IH [OF this] False ok pr up show ?thesis
      by (simp add: announced_append)
  qed
qed

lemma length_filter_split:
  "length (filter P xs) + length (filter (\<lambda>x. \<not> P x) xs) = length xs"
  by (induction xs) simp_all

lemma runner_main_result:
  "runner_main lecture S dir imp = (code, out) \<Longrightarrow>
     code = (if filter (\<lambda>n. \<not> raises_nothing imp n) S = [] then 0 else 1)
   \<and> announced out = zip [1 ..< Suc (length S)] S
   \<and> Generated (length (filter (raises_nothing imp) S)) (length S) \<in> set out"
proof -
  assume rm: "runner_main lecture S dir imp = (code, out)"
  let ?out0 = "[Makedirs (os_path_join dir [''..'', ''images'']), Rule, Title (length S) lecture,
                OutputDirectory (os_path_join dir [''..'', ''images'']), Rule]"
  obtain s f out1 where ml: "main_loop imp (length S) 1 S (0, [], ?out0) = (s, f, out1)"
    by (cases "main_loop imp (length S) 1 S (0, [], ?out0)")
  from main_loop_result [OF ml]
  have s: "s = length (filter (raises_nothing imp) S)"
    and f: "f = filter (\<lambda>n. \<not> raises_nothing imp n) S"
    and a: "announced out1 = zip [1 ..< Suc (length S)] S"
    by simp_all
  from rm ml have code: "code = (if f = [] then 0 else 1)"
    and out: "out = out1 @ [Rule, Generated s (length S)]
                @ (if f \<noteq> [] then [FailedNames f] else []) @ [Rule]"
    by (simp_all add: runner_main_def Let_def)
  show ?thesis
    using code out s f a by (simp add: announced_append)
qed



text \<open>
  Claim C10 as stated fails: a module that imports without raising but whose \<^verbatim>\<open>main\<close>
  raises makes \<^verbatim>\<open>run_script\<close> print the traceback and return \<^verbatim>\<open>False\<close>.
\<close>

theorem run_script_main_raises_counterexample:
  "demo_import ''gen_09_pagerank'' = Returns (Module (Some (Raises (PyException ''boom''))))
 \<and> run_script demo_import ''gen_09_pagerank'' = (False, [Traceback (PyException ''boom'')])"
  by (simp add: demo_import_def)

text \<open>
  Claim C10, amended.  \<^verbatim>\<open>run_script(name)\<close> returns \<^verbatim>\<open>True\<close> (and prints nothing) for every
  module that imports without raising and whose \<^verbatim>\<open>main\<close>, if it defines one, does not raise;
  in particular for a module that defines no \<^verbatim>\<open>main\<close>: the absence of the attribute is never
  reported as a failure.
\<close>

theorem run_script_without_main_succeeds:
  "import_module name = Returns (Module m) \<Longrightarrow> (\<forall>e. m \<noteq> Some (Raises e))
     \<Longrightarrow> run_script import_module name = (True, [])"
  by (cases m) (auto split: outcome.splits)

theorem run_script_without_main_succeeds_witness:
  "demo_import ''gen_04_cayley_trees'' = Returns (Module None)
 \<and> run_script demo_import ''gen_04_cayley_trees'' = (True, [])"
proof -
  have h: "demo_import ''gen_04_cayley_trees'' = Returns (Module None)"
    by (simp add: demo_import_def)
  show ?thesis
    using h run_script_without_main_succeeds [of demo_import "''gen_04_cayley_trees''" None] by simp
qed

text \<open>
  Claim C5 (every name in a runner's \<^verbatim>\<open>SCRIPTS\<close> has its \<^verbatim>\<open>gen_*.py\<close> in the runner's own
  directory) holds for \<^verbatim>\<open>lecture-08\<close> and not for \<^verbatim>\<open>lecture-new-v2\<close>: nine of the twenty
  listed scripts have no file there (they are in \<^verbatim>\<open>lecture-new/python\<close>).  For each of them
  the import raises, \<^verbatim>\<open>run_script\<close> returns \<^verbatim>\<open>False\<close>, and the runner's \<^verbatim>\<open>main\<close> returns 1
  whatever the scripts that exist do.
\<close>

theorem lecture_new_v2_runner_lists_missing_scripts:
  "missing_scripts dir_lecture_new_v2 SCRIPTS_lecture_new_v2 =
     [''gen_02_word_vectors'', ''gen_04_galton_board'', ''gen_10_convergence'',
      ''gen_11_timeline'', ''gen_15_hero_neural_net'', ''gen_16_token_pipeline'',
      ''gen_18_backprop_flow'', ''gen_19_radar_pillars'', ''gen_20_section_icons'']
 \<and> run_script (import_from dir_lecture_new_v2 load) ''gen_02_word_vectors''
      = (False, [Traceback (PyException ''ModuleNotFoundError'')])
 \<and> fst (main_lecture_new_v2 script_dir (import_from dir_lecture_new_v2 load)) = 1
 \<and> missing_scripts dir_lecture_08 SCRIPTS_lecture_08 = []"
proof -
  have a: "missing_scripts dir_lecture_new_v2 SCRIPTS_lecture_new_v2 =
     [''gen_02_word_vectors'', ''gen_04_galton_board'', ''gen_10_convergence'',
      ''gen_11_timeline'', ''gen_15_hero_neural_net'', ''gen_16_token_pipeline'',
      ''gen_18_backprop_flow'', ''gen_19_radar_pillars'', ''gen_20_section_icons'']"
    by (simp add: missing_scripts_def dir_lecture_new_v2_def SCRIPTS_lecture_new_v2_def)
  have imp: "import_from dir_lecture_new_v2 load ''gen_02_word_vectors''
      = Raises (PyException ''ModuleNotFoundError'')"
    by (simp add: import_from_def dir_lecture_new_v2_def)
  have b: "run_script (import_from dir_lecture_new_v2 load) ''gen_02_word_vectors''
      = (False, [Traceback (PyException ''ModuleNotFoundError'')])"
    by (simp add: imp)
  have "\<not> raises_nothing (import_from dir_lecture_new_v2 load) ''gen_02_word_vectors''"
    by (simp add: raises_nothing_def imp)
  moreover have "''gen_02_word_vectors'' \<in> set SCRIPTS_lecture_new_v2"
    by (simp add: SCRIPTS_lecture_new_v2_def)
  ultimately have ne: "filter (\<lambda>n. \<not> raises_nothing (import_from dir_lecture_new_v2 load) n)
      SCRIPTS_lecture_new_v2 \<noteq> []"
    by (auto simp: filter_empty_conv)
  obtain code out where rm:
    "runner_main ''lecture-new'' SCRIPTS_lecture_new_v2 script_dir
       (import_from dir_lecture_new_v2 load) = (code, out)"
    by (cases "runner_main ''lecture-new'' SCRIPTS_lecture_new_v2 script_dir
       (import_from dir_lecture_new_v2 load)")
  have c: "fst (main_lecture_new_v2 script_dir (import_from dir_lecture_new_v2 load)) = 1"
    using runner_main_result [OF rm] ne by (simp add: main_lecture_new_v2_def rm)
  have d: "missing_scripts dir_lecture_08 SCRIPTS_lecture_08 = []"
    by (simp add: missing_scripts_def dir_lecture_08_def SCRIPTS_lecture_08_def)
  show ?thesis using a b c d by simp
qed

subsection \<open>The download scripts\<close>

text \<open>
  The network and the file system, as the download functions use them:
  \<^verbatim>\<open>urllib.request.urlopen(Request(url, headers={'User-Agent': ...}), timeout=30)\<close> followed
  by \<^verbatim>\<open>response.read()\<close>; \<^verbatim>\<open>open(dest_path, 'wb')\<close>, which truncates the file; and
  \<^verbatim>\<open>f.write(data)\<close>.  Each may raise.  The file system maps a path to the file's content.
\<close>

type_synonym bytes = string
type_synonym filesystem = "string \<rightharpoonup> bytes"

record net_fs =
  urlopen_read :: "string \<Rightarrow> string \<Rightarrow> bytes outcome"
  open_wb :: "string \<Rightarrow> unit outcome"
  write_all :: "string \<Rightarrow> bytes \<Rightarrow> unit outcome"

text \<open>
  The body of the \<^verbatim>\<open>try\<close> block of \<^verbatim>\<open>download_external\<close> and \<^verbatim>\<open>download_portrait\<close>:
  \<^verbatim>\<open>
      print(f'  Downloading {filename} ({description}) ...')
      req = urllib.request.Request(url, headers={'User-Agent': ...})
      with urllib.request.urlopen(req, timeout=30) as response:
          data = response.read()
      with open(dest_path, 'wb') as f:
          f.write(data)
      size_kb = len(data) / 1024
      print(f'    Saved {filename} ({size_kb:.1f} KB)')
      return True
  \<close>
  An exception leaves the block at the call that raises it.
\<close>

definition download_try ::
  "net_fs \<Rightarrow> string \<Rightarrow> string \<Rightarrow> string \<Rightarrow> string \<Rightarrow> string \<Rightarrow> filesystem
    \<Rightarrow> bool outcome \<times> filesystem \<times> event list" where
  "download_try env user_agent filename url description dest_path fs =
     (let out0 = [Downloading filename description] in
      case urlopen_read env url user_agent of
        Raises exc \<Rightarrow> (Raises exc, fs, out0)
      | Returns data \<Rightarrow>
          (case open_wb env dest_path of
             Raises exc \<Rightarrow> (Raises exc, fs, out0)
           | Returns _ \<Rightarrow>
               (case write_all env dest_path data of
                  Raises exc \<Rightarrow> (Raises exc, fs(dest_path \<mapsto> []), out0)
                | Returns _ \<Rightarrow>
                    (Returns True, fs(dest_path \<mapsto> data),
                     out0 @ [Saved filename (length data)]))))"

text \<open>
  The whole function: the block above under
  \<^verbatim>\<open>
      except Exception as exc:
          print(f'    WARNING: Failed to download {filename}: {exc}')
          print(f'    Manual download: {url}')
          print(f'    Save to: {dest_path}')
          return False
  \<close>
  with \<^verbatim>\<open>dest_path = os.path.join(dest_dir, filename)\<close>.  The two scripts' functions are this
  text, with two different \<^verbatim>\<open>User-Agent\<close> headers.
\<close>

definition download_item ::
  "net_fs \<Rightarrow> string \<Rightarrow> string \<Rightarrow> string \<Rightarrow> string \<Rightarrow> string \<Rightarrow> filesystem
    \<Rightarrow> bool outcome \<times> filesystem \<times> event list" where
  "download_item env user_agent filename url description dest_dir fs =
     (let dest_path = os_path_join dest_dir [filename] in
      case download_try env user_agent filename url description dest_path fs of
        (Raises exc, fs', out) \<Rightarrow>
          (Returns False, fs',
           out @ [Warning filename exc, ManualDownload url, SaveTo dest_path])
      | (Returns ok, fs', out) \<Rightarrow> (Returns ok, fs', out))"

definition download_external ::
  "net_fs \<Rightarrow> string \<Rightarrow> string \<Rightarrow> string \<Rightarrow> string \<Rightarrow> filesystem
    \<Rightarrow> bool outcome \<times> filesystem \<times> event list" where
  "download_external env =
     download_item env ''MathForAI-Slides/1.0 (educational presentation)''"

definition download_portrait ::
  "net_fs \<Rightarrow> string \<Rightarrow> string \<Rightarrow> string \<Rightarrow> string \<Rightarrow> filesystem
    \<Rightarrow> bool outcome \<times> filesystem \<times> event list" where
  "download_portrait env = download_item env ''Mozilla/5.0''"

text \<open>
  The loop of a downloader's \<^verbatim>\<open>main\<close>:
  \<^verbatim>\<open>
      for filename, url, description in EXTERNALS:
          ok = download_external(filename, url, description, EXTERNAL_DIR)
          if ok:
              successes += 1
          else:
              failures.append(filename)
          print()
  \<close>
  An exception of the download function would leave the loop and \<^verbatim>\<open>main\<close>.
\<close>

fun download_loop ::
  "(string \<Rightarrow> string \<Rightarrow> string \<Rightarrow> string \<Rightarrow> filesystem
      \<Rightarrow> bool outcome \<times> filesystem \<times> event list)
    \<Rightarrow> string \<Rightarrow> (string \<times> string \<times> string) list
    \<Rightarrow> nat \<times> string list \<times> filesystem \<times> event list
    \<Rightarrow> (nat \<times> string list) outcome \<times> filesystem \<times> event list" where
  "download_loop download dest_dir [] (successes, failures, fs, out) =
     (Returns (successes, failures), fs, out)"
| "download_loop download dest_dir ((filename, url, description) # rest)
     (successes, failures, fs, out) =
     (case download filename url description dest_dir fs of
        (Raises exc, fs', printed) \<Rightarrow> (Raises exc, fs', out @ printed)
      | (Returns ok, fs', printed) \<Rightarrow>
          (if ok
           then download_loop download dest_dir rest
                  (successes + 1, failures, fs', out @ printed @ [Blank])
           else download_loop download dest_dir rest
                  (successes, failures @ [filename], fs', out @ printed @ [Blank])))"

text \<open>
  \<^verbatim>\<open>main\<close> of a downloader; the two differ in the item list, the download function, the
  destination directory and the noun of the messages.
\<close>

definition download_main ::
  "string \<Rightarrow> string list \<Rightarrow> (string \<times> string \<times> string) list
    \<Rightarrow> (string \<Rightarrow> string \<Rightarrow> string \<Rightarrow> string \<Rightarrow> filesystem
          \<Rightarrow> bool outcome \<times> filesystem \<times> event list)
    \<Rightarrow> string \<Rightarrow> filesystem \<Rightarrow> int outcome \<times> filesystem \<times> event list" where
  "download_main what subdir ITEMS download script_dir fs =
     (let DEST_DIR = os_path_join script_dir subdir;
          total_n = length ITEMS;
          out0 = [Makedirs DEST_DIR, Rule, Title total_n what, OutputDirectory DEST_DIR, Rule]
      in case download_loop download DEST_DIR ITEMS (0, [], fs, out0) of
           (Raises exc, fs', out1) \<Rightarrow> (Raises exc, fs', out1)
         | (Returns (successes, failures), fs', out1) \<Rightarrow>
             (Returns (if failures = [] then 0 else 1), fs',
              out1 @ [Rule, Downloaded successes total_n what]
                @ (if failures \<noteq> [] then [FailedNames failures, SeeWarnings] else [])
                @ [Rule]))"

definition EXTERNALS :: "(string \<times> string \<times> string) list" where
  "EXTERNALS =
    [(''xkcd-machine-learning.png'',
      ''https://imgs.xkcd.com/comics/machine_learning.png'',
      ''XKCD #1838: Machine Learning (CC BY-NC 2.5)''),
     (''xkcd-curve-fitting.png'',
      ''https://imgs.xkcd.com/comics/curve_fitting.png'',
      ''XKCD #2048: Curve-Fitting (CC BY-NC 2.5)''),
     (''xkcd-frequentists-bayesians.png'',
      ''https://imgs.xkcd.com/comics/frequentists_vs_bayesians.png'',
      ''XKCD #1132: Frequentists vs Bayesians (CC BY-NC 2.5)''),
     (''principia-title-page.jpg'',
      ''https://upload.wikimedia.org/wikipedia/commons/e/e9/Principia_Mathematica_1713.JPG'',
      ''Newton Principia Mathematica title page (CC BY 4.0)'')]"

definition PORTRAITS :: "(string \<times> string \<times> string) list" where
  "PORTRAITS =
    [(''grassmann-1860.jpg'',
      ''https://upload.wikimedia.org/wikipedia/commons/thumb/5/59/Hermann_Grassmann.jpg/440px-Hermann_Grassmann.jpg'',
      ''Hermann Grassmann portrait''),
     (''pascal-1663.jpg'',
      ''https://upload.wikimedia.org/wikipedia/commons/thumb/9/98/Blaise_Pascal_Versailles.JPG/440px-Blaise_Pascal_Versailles.JPG'',
      ''Blaise Pascal (Versailles portrait by Quesnel)''),
     (''newton-1689.jpg'',
      ''https://upload.wikimedia.org/wikipedia/commons/thumb/3/3b/GodfreyKneller-IsaacNewton-1689.jpg/440px-GodfreyKneller-IsaacNewton-1689.jpg'',
      ''Isaac Newton (Kneller 1689)''),
     (''leibniz-1695.jpg'',
      ''https://upload.wikimedia.org/wikipedia/commons/thumb/6/6a/Gottfried_Wilhelm_von_Leibniz.jpg/440px-Gottfried_Wilhelm_von_Leibniz.jpg'',
      ''Gottfried Leibniz (Francke portrait)''),
     (''shannon-1963.jpg'',
      ''https://upload.wikimedia.org/wikipedia/commons/thumb/9/9b/ClaudeShannon_MFO3807.jpg/440px-ClaudeShannon_MFO3807.jpg'',
      ''Claude Shannon at Bell Labs''),
     (''hinton-2024.jpg'',
      ''https://upload.wikimedia.org/wikipedia/commons/thumb/8/8a/Geoffrey_Hinton_Royal_Society.jpg/440px-Geoffrey_Hinton_Royal_Society.jpg'',
      ''Geoffrey Hinton (Nobel laureate)''),
     (''cayley-1883.jpg'',
      ''https://upload.wikimedia.org/wikipedia/commons/thumb/a/a8/Arthur_Cayley.jpg/440px-Arthur_Cayley.jpg'',
      ''Arthur Cayley engraving''),
     (''bayes.jpg'',
      ''https://upload.wikimedia.org/wikipedia/commons/thumb/d/d4/Thomas_Bayes.gif/440px-Thomas_Bayes.gif'',
      ''Thomas Bayes (disputed portrait)'')]"

definition download_external_main ::
  "net_fs \<Rightarrow> string \<Rightarrow> filesystem \<Rightarrow> int outcome \<times> filesystem \<times> event list" where
  "download_external_main env =
     download_main ''external images'' [''..'', ''images'', ''external''] EXTERNALS
       (download_external env)"

definition download_portraits_main ::
  "net_fs \<Rightarrow> string \<Rightarrow> filesystem \<Rightarrow> int outcome \<times> filesystem \<times> event list" where
  "download_portraits_main env =
     download_main ''portraits'' [''..'', ''images'', ''portraits''] PORTRAITS
       (download_portrait env)"

text \<open>The scripts of the repository whose name starts with \<^verbatim>\<open>download_\<close>.\<close>

definition download_scripts :: "string list" where
  "download_scripts =
     filter (\<lambda>f. take 9 f = ''download_'') (dir_lecture_08 @ dir_lecture_new @ dir_lecture_new_v2)"

text \<open>The file names announced by the \<^verbatim>\<open>Downloading\<close> lines of an output, in order.\<close>

fun attempted :: "event list \<Rightarrow> string list" where
  "attempted [] = []"
| "attempted (Downloading filename description # out) = filename # attempted out"
| "attempted (ev # out) = attempted out"

text \<open>
  What a download fetches and stores when none of its three calls raises; \<open>None\<close> when one
  raises.  A download succeeds when this is not \<open>None\<close>.
\<close>

definition fetched :: "net_fs \<Rightarrow> string \<Rightarrow> string \<Rightarrow> string \<Rightarrow> bytes option" where
  "fetched env user_agent url dest_path =
     (case urlopen_read env url user_agent of
        Raises exc \<Rightarrow> None
      | Returns data \<Rightarrow>
          (case open_wb env dest_path of
             Raises exc \<Rightarrow> None
           | Returns _ \<Rightarrow>
               (case write_all env dest_path data of
                  Raises exc \<Rightarrow> None
                | Returns _ \<Rightarrow> Some data)))"

definition succeeds :: "net_fs \<Rightarrow> string \<Rightarrow> string \<Rightarrow> string \<times> string \<times> string \<Rightarrow> bool" where
  "succeeds env user_agent dest_dir item =
     (case item of (filename, url, description) \<Rightarrow>
        fetched env user_agent url (os_path_join dest_dir [filename]) \<noteq> None)"

text \<open>A network for the examples: one URL answers, every other fails.\<close>

definition demo_net :: net_fs where
  "demo_net =
     \<lparr>urlopen_read = (\<lambda>url user_agent.
          if url = ''https://example.org/a.png'' then Returns ''PNG''
          else Raises (PyException ''HTTP Error 404'')),
      open_wb = (\<lambda>path. Returns ()),
      write_all = (\<lambda>path data. Returns ())\<rparr>"

lemma download_item_returns:
  "\<exists>fs' out. download_item env ua filename url description dest_dir fs =
      (Returns (succeeds env ua dest_dir (filename, url, description)), fs', out)
    \<and> attempted out = [filename]"
  by (auto simp add: download_item_def download_try_def fetched_def succeeds_def Let_def
      split: outcome.splits)

lemma attempted_append: "attempted (xs @ ys) = attempted xs @ attempted ys"
  by (induction xs rule: attempted.induct) simp_all

lemma download_loop_result:
  "download_loop (download_item env ua) dest_dir ITEMS (s, f, fs, out) = (r, fs', out') \<Longrightarrow>
     r = Returns (s + length (filter (succeeds env ua dest_dir) ITEMS),
                  f @ map fst (filter (\<lambda>item. \<not> succeeds env ua dest_dir item) ITEMS))
   \<and> attempted out' = attempted out @ map fst ITEMS"
proof (induction ITEMS arbitrary: s f fs out)
  case Nil
  then show ?case by auto
next
  case (Cons item ITEMS)
  obtain filename url description where item: "item = (filename, url, description)"
    by (cases item)
  obtain fs1 printed where d:
    "download_item env ua filename url description dest_dir fs =
       (Returns (succeeds env ua dest_dir item), fs1, printed)"
    and pr: "attempted printed = [filename]"
    using download_item_returns [of env ua filename url description dest_dir fs]
    unfolding item by blast
  show ?case
  proof (cases "succeeds env ua dest_dir item")
    case True
    with Cons.prems d
    have "download_loop (download_item env ua) dest_dir ITEMS
            (s + 1, f, fs1, out @ printed @ [Blank]) = (r, fs', out')"
      by (simp add: item)
    from Cons.IH [OF this] True pr show ?thesis
      by (simp add: attempted_append item)
  next
    case False
    with Cons.prems d
    have "download_loop (download_item env ua) dest_dir ITEMS
            (s, f @ [filename], fs1, out @ printed @ [Blank]) = (r, fs', out')"
      by (simp add: item)
    from Cons.IH [OF this] False pr show ?thesis
      by (simp add: attempted_append item)
  qed
qed

lemma download_main_result:
  "\<exists>fs' out.
     download_main what subdir ITEMS (download_item env ua) script_dir fs =
       (Returns (if list_all (succeeds env ua (os_path_join script_dir subdir)) ITEMS
                 then 0 else 1), fs', out)
   \<and> attempted out = map fst ITEMS
   \<and> Downloaded (length (filter (succeeds env ua (os_path_join script_dir subdir)) ITEMS))
        (length ITEMS) what \<in> set out"
proof -
  let ?D = "os_path_join script_dir subdir"
  let ?out0 = "[Makedirs ?D, Rule, Title (length ITEMS) what, OutputDirectory ?D, Rule]"
  obtain r fs1 out1 where dl:
    "download_loop (download_item env ua) ?D ITEMS (0, [], fs, ?out0) = (r, fs1, out1)"
    by (cases "download_loop (download_item env ua) ?D ITEMS (0, [], fs, ?out0)")
  from download_loop_result [OF dl]
  have r: "r = Returns (length (filter (succeeds env ua ?D) ITEMS),
                  map fst (filter (\<lambda>item. \<not> succeeds env ua ?D item) ITEMS))"
    and a: "attempted out1 = map fst ITEMS"
    by simp_all
  have e: "(map fst (filter (\<lambda>item. \<not> succeeds env ua ?D item) ITEMS) = [])
      = list_all (succeeds env ua ?D) ITEMS"
    by (simp add: filter_empty_conv list_all_iff)
  show ?thesis
    unfolding download_main_def Let_def dl r
    using a e by (simp add: attempted_append)
qed



subsection \<open>\<^verbatim>\<open>gen_20_attention_heatmap.build_matrix\<close>\<close>

text \<open>Python errors of the computational fragments, as values.\<close>

datatype py_error = ValueError | IndexError | KeyError

text \<open>
  \<^verbatim>\<open>N = len(WORDS)\<close> is 6.  \<^verbatim>\<open>ATTENTION\<close> is a dictionary from two-element
  \<^verbatim>\<open>frozenset\<close>s of indices to weights; it is read through \<^verbatim>\<open>.items()\<close> only, so it is its
  list of items in insertion order.  The numpy array of floats is a list of rows of reals.
\<close>

definition N :: nat where
  "N = 6"

definition ATTENTION :: "(nat set \<times> real) list" where
  "ATTENTION =
    [({1, 2}, 0.90), ({3, 5}, 0.70), ({0, 1}, 0.60), ({2, 3}, 0.50), ({4, 5}, 0.45),
     ({1, 5}, 0.35), ({0, 2}, 0.25), ({2, 5}, 0.20), ({1, 3}, 0.20), ({3, 4}, 0.18),
     ({0, 5}, 0.15), ({0, 4}, 0.12), ({0, 3}, 0.10), ({1, 4}, 0.10), ({2, 4}, 0.10)]"

text \<open>
  \<^verbatim>\<open>mat[i, j] = v\<close> raises \<^verbatim>\<open>IndexError\<close> outside the array (the indices here are never
  negative).  \<^verbatim>\<open>np.fill_diagonal(mat, v)\<close> overwrites the diagonal.
\<close>

definition np_zeros :: "nat \<Rightarrow> nat \<Rightarrow> real list list" where
  "np_zeros r c = replicate r (replicate c 0)"

definition setitem :: "real list list \<Rightarrow> nat \<Rightarrow> nat \<Rightarrow> real \<Rightarrow> py_error + real list list" where
  "setitem mat i j v =
     (if i < length mat \<and> j < length (mat ! i) then Inr (mat[i := (mat ! i)[j := v]])
      else Inl IndexError)"

fun fill_diagonal_from :: "nat \<Rightarrow> real list list \<Rightarrow> real \<Rightarrow> real list list" where
  "fill_diagonal_from i [] v = []"
| "fill_diagonal_from i (row # rows) v = row[i := v] # fill_diagonal_from (Suc i) rows v"

definition np_fill_diagonal :: "real list list \<Rightarrow> real \<Rightarrow> real list list" where
  "np_fill_diagonal mat v = fill_diagonal_from 0 mat v"

text \<open>
  \<^verbatim>\<open>
  def build_matrix():
      mat = np.zeros((N, N))
      for pair, weight in ATTENTION.items():
          i, j = sorted(pair)
          mat[i, j] = weight
          mat[j, i] = weight
      np.fill_diagonal(mat, 1.0)  # self-attention
      return mat
  \<close>
  The unpacking \<^verbatim>\<open>i, j = sorted(pair)\<close> raises \<^verbatim>\<open>ValueError\<close> unless the set has two
  elements.  The table is a parameter of \<open>build_matrix_from\<close>, so that what the function
  does with a pair that a table lacks can be stated; \<open>build_matrix\<close> is the source's
  function, on the source's table.
\<close>

fun build_loop :: "real list list \<Rightarrow> (nat set \<times> real) list \<Rightarrow> py_error + real list list" where
  "build_loop mat [] = Inr mat"
| "build_loop mat ((pair, weight) # rest) =
     (case sorted_list_of_set pair of
        [i, j] \<Rightarrow>
          (case setitem mat i j weight of
             Inl err \<Rightarrow> Inl err
           | Inr mat1 \<Rightarrow>
               (case setitem mat1 j i weight of
                  Inl err \<Rightarrow> Inl err
                | Inr mat2 \<Rightarrow> build_loop mat2 rest))
      | _ \<Rightarrow> Inl ValueError)"

definition build_matrix_from :: "(nat set \<times> real) list \<Rightarrow> py_error + real list list" where
  "build_matrix_from table =
     (case build_loop (np_zeros N N) table of
        Inl err \<Rightarrow> Inl err
      | Inr mat \<Rightarrow> Inr (np_fill_diagonal mat 1.0))"

definition build_matrix :: "py_error + real list list" where
  "build_matrix = build_matrix_from ATTENTION"

text \<open>A matrix of \<open>n\<close> rows of length \<open>n\<close>.\<close>

definition shape :: "nat \<Rightarrow> real list list \<Rightarrow> bool" where
  "shape n mat = (length mat = n \<and> list_all (\<lambda>row. length row = n) mat)"

lemma sorted_pair: "i < j \<Longrightarrow> sorted_list_of_set {i, j} = [i, j]" for i j :: nat
  by (simp add: insort_is_Cons)

lemma build_matrix_value:
  "build_matrix = Inr
    [[1.00, 0.60, 0.25, 0.10, 0.12, 0.15],
     [0.60, 1.00, 0.90, 0.20, 0.10, 0.35],
     [0.25, 0.90, 1.00, 0.50, 0.10, 0.20],
     [0.10, 0.20, 0.50, 1.00, 0.18, 0.70],
     [0.12, 0.10, 0.10, 0.18, 1.00, 0.45],
     [0.15, 0.35, 0.20, 0.70, 0.45, 1.00]]"
  by (simp add: build_matrix_def build_matrix_from_def ATTENTION_def N_def np_zeros_def
      sorted_pair setitem_def np_fill_diagonal_def numeral_eq_Suc)

lemma shape_row: "shape n mat \<Longrightarrow> a < n \<Longrightarrow> length (mat ! a) = n"
  by (simp add: shape_def list_all_length)

lemma setitem_shape:
  "setitem mat i j v = Inr mat' \<Longrightarrow> shape n mat \<Longrightarrow> shape n mat'"
  by (auto simp: setitem_def shape_def list_all_length nth_list_update split: if_splits)

lemma setitem_nth:
  "setitem mat i j v = Inr mat' \<Longrightarrow> shape n mat \<Longrightarrow> a < n \<Longrightarrow> b < n \<Longrightarrow>
     mat' ! a ! b = (if a = i \<and> b = j then v else mat ! a ! b)"
  by (auto simp: setitem_def shape_def list_all_length nth_list_update split: if_splits)

lemma sorted_list_of_set_pair:
  assumes "sorted_list_of_set A = [i, j]"
  shows "A = {i, j}"
proof -
  have "finite A"
  proof (rule ccontr)
    assume "infinite A"
    then have "sorted_list_of_set A = []" by simp
    with assms show False by simp
  qed
  then have "set (sorted_list_of_set A) = A" by simp
  with assms show ?thesis by auto
qed

lemma build_loop_untouched:
  "build_loop mat table = Inr M \<Longrightarrow> shape n mat \<Longrightarrow>
     shape n M \<and> (\<forall>a<n. \<forall>b<n. {a, b} \<notin> fst ` set table \<longrightarrow> M ! a ! b = mat ! a ! b)"
proof (induction table arbitrary: mat)
  case Nil
  then show ?case by simp
next
  case (Cons entry table)
  obtain pair weight where entry: "entry = (pair, weight)" by (cases entry)
  from Cons.prems(1) obtain i j where ij: "sorted_list_of_set pair = [i, j]"
    unfolding entry by (auto split: list.splits)
  from Cons.prems(1) ij obtain mat1 where m1: "setitem mat i j weight = Inr mat1"
    unfolding entry by (auto split: sum.splits)
  from Cons.prems(1) ij m1 obtain mat2 where m2: "setitem mat1 j i weight = Inr mat2"
    unfolding entry by (auto split: sum.splits)
  from Cons.prems(1) ij m1 m2 have rest: "build_loop mat2 table = Inr M"
    unfolding entry by simp
  have s1: "shape n mat1" using setitem_shape [OF m1 Cons.prems(2)] .
  have s2: "shape n mat2" using setitem_shape [OF m2 s1] .
  have pair: "pair = {i, j}" using sorted_list_of_set_pair [OF ij] .
  from Cons.IH [OF rest s2]
  have sM: "shape n M"
    and keep: "\<And>a b. a < n \<Longrightarrow> b < n \<Longrightarrow> {a, b} \<notin> fst ` set table \<Longrightarrow> M ! a ! b = mat2 ! a ! b"
    by auto
  have "M ! a ! b = mat ! a ! b"
    if a: "a < n" and b: "b < n" and ab: "{a, b} \<notin> fst ` set (entry # table)" for a b
  proof -
    from ab have ne: "{a, b} \<noteq> {i, j}" and tb: "{a, b} \<notin> fst ` set table"
      by (auto simp: entry pair)
    from ne have n1: "\<not> (a = i \<and> b = j)" and n2: "\<not> (a = j \<and> b = i)"
      by (auto simp: doubleton_eq_iff)
    have "M ! a ! b = mat2 ! a ! b" using keep [OF a b tb] .
    also have "\<dots> = mat1 ! a ! b" using setitem_nth [OF m2 s1 a b] n2 by simp
    also have "\<dots> = mat ! a ! b" using setitem_nth [OF m1 Cons.prems(2) a b] n1 by simp
    finally show ?thesis .
  qed
  with sM show ?case by blast
qed

lemma fill_diagonal_from_length: "length (fill_diagonal_from k rows v) = length rows"
  by (induction rows arbitrary: k) simp_all

lemma fill_diagonal_from_nth:
  "a < length rows \<Longrightarrow> fill_diagonal_from k rows v ! a = (rows ! a)[k + a := v]"
proof (induction rows arbitrary: k a)
  case Nil
  then show ?case by simp
next
  case (Cons row rows)
  then show ?case by (cases a) simp_all
qed

lemma np_zeros_shape: "shape n (np_zeros n n)"
  by (simp add: shape_def np_zeros_def list_all_length)

lemma np_zeros_nth: "a < n \<Longrightarrow> b < n \<Longrightarrow> np_zeros n n ! a ! b = 0"
  by (simp add: np_zeros_def)

lemma build_matrix_from_absent:
  assumes "build_matrix_from table = Inr M" and "i < N" and "j < N" and "i \<noteq> j"
    and "{i, j} \<notin> fst ` set table"
  shows "M ! i ! j = 0"
proof -
  from assms(1) obtain mat where bl: "build_loop (np_zeros N N) table = Inr mat"
    and M: "M = np_fill_diagonal mat 1"
    by (auto simp: build_matrix_from_def split: sum.splits)
  from build_loop_untouched [OF bl np_zeros_shape]
  have sh: "shape N mat" and "mat ! i ! j = np_zeros N N ! i ! j"
    using assms(2,3,5) by auto
  then have z: "mat ! i ! j = 0"
    using assms(2,3) by (simp add: np_zeros_nth)
  have "M ! i = (mat ! i)[i := 1]"
    unfolding M np_fill_diagonal_def
    using fill_diagonal_from_nth [of i mat 0 1] sh assms(2) by (simp add: shape_def)
  with z assms(4) show ?thesis by simp
qed

lemma less_six: "i < (6::nat) \<longleftrightarrow> i = 0 \<or> i = 1 \<or> i = 2 \<or> i = 3 \<or> i = 4 \<or> i = 5"
  by auto

text \<open>
  Claim C9.  \<^verbatim>\<open>build_matrix()\<close> always returns a 6x6 matrix that is symmetric, has every
  diagonal entry equal to 1 and every entry in the closed interval from 0 to 1; its rows
  are not normalised (the first sums to more than 1).  A pair of distinct indices that the
  table lacks yields the entry 0 (the source's table has all fifteen pairs).
\<close>

theorem build_matrix_symmetric:
  "(\<exists>M. build_matrix = Inr M
      \<and> length M = 6 \<and> (\<forall>i<6. length (M ! i) = 6)
      \<and> (\<forall>i<6. \<forall>j<6. M ! i ! j = M ! j ! i)
      \<and> (\<forall>i<6. M ! i ! i = 1)
      \<and> (\<forall>i<6. \<forall>j<6. 0 \<le> M ! i ! j \<and> M ! i ! j \<le> 1)
      \<and> sum_list (M ! 0) \<noteq> 1)
 \<and> (build_matrix_from table = Inr M' \<and> i < 6 \<and> j < 6 \<and> i \<noteq> j \<and> {i, j} \<notin> fst ` set table
      \<longrightarrow> M' ! i ! j = 0)"
proof -
  have gen: "build_matrix_from table = Inr M' \<and> i < 6 \<and> j < 6 \<and> i \<noteq> j
      \<and> {i, j} \<notin> fst ` set table \<longrightarrow> M' ! i ! j = 0"
    using build_matrix_from_absent [of table M' i j] by (simp add: N_def)
  show ?thesis
    unfolding build_matrix_value
    by (rule conjI [OF _ gen]) (simp add: less_six)
qed

theorem build_matrix_symmetric_witness:
  "build_matrix_from [({1, 2}, 0.9), ({0, 1}, 0.6)]
     = Inr [[1, 0.6, 0, 0, 0, 0], [0.6, 1, 0.9, 0, 0, 0], [0, 0.9, 1, 0, 0, 0],
            [0, 0, 0, 1, 0, 0], [0, 0, 0, 0, 1, 0], [0, 0, 0, 0, 0, 1]]
 \<and> {0, 2} \<notin> fst ` set [({1, 2}, 0.9 :: real), ({0 :: nat, 1}, 0.6)]
 \<and> [[1, 0.6, 0, 0, 0, 0], [0.6, 1, 0.9, 0, 0, 0], [0, 0.9, 1, 0, 0, 0],
            [0, 0, 0, 1, 0, 0], [0, 0, 0, 0, 1, 0], [0, 0, 0, 0, 0, 1 :: real]] ! 0 ! 2 = 0"
proof -
  have v: "build_matrix_from [({1, 2}, 0.9), ({0, 1}, 0.6)]
     = Inr [[1, 0.6, 0, 0, 0, 0], [0.6, 1, 0.9, 0, 0, 0], [0, 0.9, 1, 0, 0, 0],
            [0, 0, 0, 1, 0, 0], [0, 0, 0, 0, 1, 0], [0, 0, 0, 0, 0, 1]]"
    by (simp add: build_matrix_from_def N_def np_zeros_def
      sorted_pair setitem_def np_fill_diagonal_def numeral_eq_Suc)
  have a: "{0, 2} \<notin> fst ` set [({1, 2}, 0.9 :: real), ({0 :: nat, 1}, 0.6)]"
    by (simp add: doubleton_eq_iff)
  from v a build_matrix_symmetric [of "[({1, 2}, 0.9), ({0, 1}, 0.6)]" _ 0 2]
  show ?thesis by simp
qed

subsection \<open>\<^verbatim>\<open>gen_03_softmax.softmax\<close>\<close>

text \<open>
  \<^verbatim>\<open>
  def softmax(z):
      e = np.exp(z - np.max(z))
      return e / e.sum()
  \<close>
  The numpy vector of floats is a list of reals, and the arithmetic is that of the reals.
  \<^verbatim>\<open>np.max\<close> of an empty array raises \<^verbatim>\<open>ValueError\<close>.
\<close>

definition softmax :: "real list \<Rightarrow> py_error + real list" where
  "softmax z =
     (if z = [] then Inl ValueError
      else let e = map (\<lambda>x. exp (x - Max (set z))) z
           in Inr (map (\<lambda>x. x / sum_list e) e))"

lemma sum_list_exp_pos: "z \<noteq> [] \<Longrightarrow> 0 < sum_list (map (\<lambda>x. exp (x - m)) z)" for z :: "real list"
proof (induction z)
  case Nil
  then show ?case by simp
next
  case (Cons a z)
  have "0 \<le> sum_list (map (\<lambda>x. exp (x - m)) z)"
    by (rule sum_list_nonneg) auto
  moreover have "0 < exp (a - m)" by simp
  ultimately have "0 < exp (a - m) + sum_list (map (\<lambda>x. exp (x - m)) z)"
    by (simp add: add_pos_nonneg)
  then show ?case by simp
qed

lemma sum_list_shift:
  "sum_list (map (\<lambda>x. exp (x - m)) z) = sum_list (map exp z) / exp m" for z :: "real list"
  by (induction z) (simp_all add: exp_diff add_divide_distrib)

lemma sum_list_div: "sum_list (map (\<lambda>x. f x / c) z) = sum_list (map f z) / c" for c :: real
  by (induction z) (simp_all add: add_divide_distrib)

lemma softmax_textbook:
  assumes "z \<noteq> []"
  shows "softmax z = Inr (map (\<lambda>x. exp x / sum_list (map exp z)) z)"
proof -
  let ?m = "Max (set z)"
  have "exp (x - ?m) / sum_list (map (\<lambda>x. exp (x - ?m)) z) = exp x / sum_list (map exp z)" for x
    by (subst sum_list_shift) (simp add: exp_diff)
  then show ?thesis
    using assms by (simp add: softmax_def Let_def o_def)
qed



subsection \<open>\<^verbatim>\<open>gen_05_gradient_descent\<close>: the simulated trajectory\<close>

text \<open>
  \<^verbatim>\<open>
  def loss_fn(x, y):
      return 0.6 * x ** 2 + 0.9 * y ** 2 + 0.3 * x * y + 0.15 * np.sin(2 * x) * np.cos(2 * y)

  def grad_fn(x, y):
      h = 1e-5
      dfdx = (loss_fn(x + h, y) - loss_fn(x - h, y)) / (2 * h)
      dfdy = (loss_fn(x, y + h) - loss_fn(x, y - h)) / (2 * h)
      return dfdx, dfdy
  \<close>
  over the reals.
\<close>

definition loss_fn :: "real \<Rightarrow> real \<Rightarrow> real" where
  "loss_fn x y = 0.6 * x ^ 2 + 0.9 * y ^ 2 + 0.3 * x * y + 0.15 * sin (2 * x) * cos (2 * y)"

definition grad_fn :: "real \<Rightarrow> real \<Rightarrow> real \<times> real" where
  "grad_fn x y =
     (let h = 1 / 100000;
          dfdx = (loss_fn (x + h) y - loss_fn (x - h) y) / (2 * h);
          dfdy = (loss_fn x (y + h) - loss_fn x (y - h)) / (2 * h)
      in (dfdx, dfdy))"

text \<open>
  \<^verbatim>\<open>
  def simulate_gradient_descent(x0, y0, lr=0.12, n_steps=20):
      path = [(x0, y0, loss_fn(x0, y0))]
      x, y = x0, y0
      for _ in range(n_steps):
          dx, dy = grad_fn(x, y)
          x -= lr * dx
          y -= lr * dy
          path.append((x, y, loss_fn(x, y)))
      return np.array(path)
  \<close>
  The loop runs \<^verbatim>\<open>n_steps\<close> times (not at all for a negative \<^verbatim>\<open>n_steps\<close>); the returned
  array is the list of its rows.
\<close>

fun descent_loop ::
  "real \<Rightarrow> nat \<Rightarrow> real \<times> real \<Rightarrow> (real \<times> real \<times> real) list \<Rightarrow> (real \<times> real \<times> real) list" where
  "descent_loop lr 0 (x, y) path = path"
| "descent_loop lr (Suc k) (x, y) path =
     (let (dx, dy) = grad_fn x y;
          x1 = x - lr * dx;
          y1 = y - lr * dy
      in descent_loop lr k (x1, y1) (path @ [(x1, y1, loss_fn x1 y1)]))"

definition simulate_gradient_descent ::
  "real \<Rightarrow> real \<Rightarrow> real \<Rightarrow> int \<Rightarrow> (real \<times> real \<times> real) list" where
  "simulate_gradient_descent x0 y0 lr n_steps =
     descent_loop lr (nat n_steps) (x0, y0) [(x0, y0, loss_fn x0 y0)]"

text \<open>One update of a point of the trajectory, as the claim describes it.\<close>

definition update :: "real \<Rightarrow> real \<times> real \<times> real \<Rightarrow> real \<times> real \<times> real" where
  "update lr p =
     (case p of (x, y, l) \<Rightarrow>
        let x1 = x - lr * fst (grad_fn x y);
            y1 = y - lr * snd (grad_fn x y)
        in (x1, y1, loss_fn x1 y1))"

lemma descent_loop_path:
  "path \<noteq> [] \<Longrightarrow> last path = (x, y, loss_fn x y) \<Longrightarrow>
   (\<forall>i. Suc i < length path \<longrightarrow> path ! Suc i = update lr (path ! i)) \<Longrightarrow>
   (\<forall>p \<in> set path. snd (snd p) = loss_fn (fst p) (fst (snd p))) \<Longrightarrow>
   take (length path) (descent_loop lr k (x, y) path) = path
   \<and> length (descent_loop lr k (x, y) path) = length path + k
   \<and> (\<forall>i. Suc i < length path + k \<longrightarrow>
        descent_loop lr k (x, y) path ! Suc i = update lr (descent_loop lr k (x, y) path ! i))
   \<and> (\<forall>p \<in> set (descent_loop lr k (x, y) path). snd (snd p) = loss_fn (fst p) (fst (snd p)))"
proof (induction k arbitrary: x y path)
  case 0
  then show ?case by simp
next
  case (Suc k)
  obtain dx dy where g: "grad_fn x y = (dx, dy)" by (cases "grad_fn x y")
  let ?x1 = "x - lr * dx" and ?y1 = "y - lr * dy"
  let ?path = "path @ [(?x1, ?y1, loss_fn ?x1 ?y1)]"
  have up: "update lr (x, y, loss_fn x y) = (?x1, ?y1, loss_fn ?x1 ?y1)"
    by (simp add: update_def g Let_def)
  have step: "\<forall>i. Suc i < length ?path \<longrightarrow> ?path ! Suc i = update lr (?path ! i)"
  proof (intro allI impI)
    fix i assume i: "Suc i < length ?path"
    show "?path ! Suc i = update lr (?path ! i)"
    proof (cases "Suc i < length path")
      case True
      with Suc.prems(3) show ?thesis by (simp add: nth_append)
    next
      case False
      with i have e: "Suc i = length path" by simp
      then have "i = length path - 1" by simp
      then have "path ! i = last path"
        using Suc.prems(1) by (simp add: last_conv_nth)
      with e Suc.prems(2) up show ?thesis by (simp add: nth_append)
    qed
  qed
  have third: "\<forall>p \<in> set ?path. snd (snd p) = loss_fn (fst p) (fst (snd p))"
    using Suc.prems(4) by simp
  have IH: "take (length ?path) (descent_loop lr k (?x1, ?y1) ?path) = ?path
   \<and> length (descent_loop lr k (?x1, ?y1) ?path) = length ?path + k
   \<and> (\<forall>i. Suc i < length ?path + k \<longrightarrow>
        descent_loop lr k (?x1, ?y1) ?path ! Suc i = update lr (descent_loop lr k (?x1, ?y1) ?path ! i))
   \<and> (\<forall>p \<in> set (descent_loop lr k (?x1, ?y1) ?path). snd (snd p) = loss_fn (fst p) (fst (snd p)))"
    by (rule Suc.IH [OF _ _ step third]) simp_all
  have unf: "descent_loop lr (Suc k) (x, y) path = descent_loop lr k (?x1, ?y1) ?path"
    by (simp add: g Let_def)
  from IH have "take (length path) (take (length ?path) (descent_loop lr k (?x1, ?y1) ?path)) = path"
    by simp
  then have tk: "take (length path) (descent_loop lr k (?x1, ?y1) ?path) = path"
    by (simp add: min_def)
  show ?case
    unfolding unf using IH tk by simp
qed

text \<open>
  Claim C7.  For every start point, learning rate and step count \<open>n_steps \<ge> 0\<close>, the
  trajectory has exactly \<open>n_steps + 1\<close> points; the first is \<open>(x0, y0, loss_fn x0 y0)\<close>; each
  later point comes from its predecessor by the single update \<open>x - lr * dx\<close>,
  \<open>y - lr * dy\<close>, where \<open>(dx, dy)\<close> is the central difference of \<open>loss_fn\<close> with step
  \<open>1e-5\<close>; and the third coordinate of every point is \<open>loss_fn\<close> of its first two.
\<close>

theorem gradient_descent_trajectory:
  assumes "0 \<le> n_steps"
  shows "length (simulate_gradient_descent x0 y0 lr n_steps) = nat n_steps + 1
   \<and> simulate_gradient_descent x0 y0 lr n_steps ! 0 = (x0, y0, loss_fn x0 y0)
   \<and> (\<forall>k < nat n_steps.
        simulate_gradient_descent x0 y0 lr n_steps ! (k + 1)
          = (case simulate_gradient_descent x0 y0 lr n_steps ! k of
               (x, y, l) \<Rightarrow>
                 (x - lr * fst (grad_fn x y), y - lr * snd (grad_fn x y),
                  loss_fn (x - lr * fst (grad_fn x y)) (y - lr * snd (grad_fn x y)))))
   \<and> (\<forall>k \<le> nat n_steps.
        case simulate_gradient_descent x0 y0 lr n_steps ! k of (x, y, l) \<Rightarrow> l = loss_fn x y)
   \<and> grad_fn x y = ((loss_fn (x + 1 / 100000) y - loss_fn (x - 1 / 100000) y) / (2 * (1 / 100000)),
                    (loss_fn x (y + 1 / 100000) - loss_fn x (y - 1 / 100000)) / (2 * (1 / 100000)))"
proof -
  let ?path = "simulate_gradient_descent x0 y0 lr n_steps"
  have P: "take 1 ?path = [(x0, y0, loss_fn x0 y0)]
   \<and> length ?path = 1 + nat n_steps
   \<and> (\<forall>i. Suc i < 1 + nat n_steps \<longrightarrow> ?path ! Suc i = update lr (?path ! i))
   \<and> (\<forall>p \<in> set ?path. snd (snd p) = loss_fn (fst p) (fst (snd p)))"
    unfolding simulate_gradient_descent_def
    using descent_loop_path [of "[(x0, y0, loss_fn x0 y0)]" x0 y0 lr "nat n_steps"] by simp
  then have len: "length ?path = nat n_steps + 1" by simp
  from P have "take 1 ?path ! 0 = (x0, y0, loss_fn x0 y0)" by simp
  then have first: "?path ! 0 = (x0, y0, loss_fn x0 y0)" by simp
  have step: "\<forall>k < nat n_steps. ?path ! (k + 1)
          = (case ?path ! k of
               (x, y, l) \<Rightarrow>
                 (x - lr * fst (grad_fn x y), y - lr * snd (grad_fn x y),
                  loss_fn (x - lr * fst (grad_fn x y)) (y - lr * snd (grad_fn x y))))"
    using P by (auto simp: update_def Let_def split: prod.splits)
  have third: "\<forall>k \<le> nat n_steps. case ?path ! k of (x, y, l) \<Rightarrow> l = loss_fn x y"
  proof (intro allI impI)
    fix k assume "k \<le> nat n_steps"
    then have "?path ! k \<in> set ?path" using len by simp
    with P show "case ?path ! k of (x, y, l) \<Rightarrow> l = loss_fn x y"
      by (auto split: prod.splits)
  qed
  have g: "grad_fn x y = ((loss_fn (x + 1 / 100000) y - loss_fn (x - 1 / 100000) y) / (2 * (1 / 100000)),
                    (loss_fn x (y + 1 / 100000) - loss_fn x (y - 1 / 100000)) / (2 * (1 / 100000)))"
    by (simp add: grad_fn_def Let_def)
  from len first step third g show ?thesis by blast
qed

theorem gradient_descent_trajectory_witness:
  "(0::int) \<le> 18 \<and> length (simulate_gradient_descent 2.5 2.2 0.12 18) = 19
   \<and> simulate_gradient_descent 2.5 2.2 0.12 18 ! 0 = (2.5, 2.2, loss_fn 2.5 2.2)"
proof -
  have h: "(0::int) \<le> 18" by simp
  from gradient_descent_trajectory [OF h, of "2.5" "2.2" "0.12"] h show ?thesis by simp
qed

subsection \<open>What the generator scripts save\<close>

text \<open>
  A run of a generator script, reduced to its calls of \<^verbatim>\<open>plt.savefig\<close>: the paths it
  passes, in order.  The generators are the files \<^verbatim>\<open>gen_*.py\<close> of the three directories,
  each named by its lecture and its module name.
\<close>

definition generators :: "(string \<times> string) list" where
  "generators =
     (let gens = (\<lambda>lecture dir.
            map (\<lambda>f. (lecture, take (length f - 3) f)) (filter (\<lambda>f. take 4 f = ''gen_'') dir))
      in gens ''lecture-08'' dir_lecture_08 @ gens ''lecture-new'' dir_lecture_new
           @ gens ''lecture-new-v2'' dir_lecture_new_v2)"

text \<open>
  Every generator but one sets
  \<^verbatim>\<open>OUTPUT_PATH = os.path.join(SCRIPT_DIR, '..', 'images', '<file>')\<close> at module level and
  calls \<^verbatim>\<open>plt.savefig(OUTPUT_PATH, ...)\<close> once, unconditionally, at the top level of its
  \<^verbatim>\<open>main\<close> (of the module, for \<^verbatim>\<open>gen_01\<close> to \<^verbatim>\<open>gen_06\<close> of lecture 08).  The table gives
  the file of each.
\<close>

definition OUTPUT_FILE :: "((string \<times> string) \<times> string) list" where
  "OUTPUT_FILE =
    [((''lecture-08'', ''gen_01_konigsberg''), ''01-konigsberg-map.png''),
     ((''lecture-08'', ''gen_02_konigsberg_graph''), ''02-konigsberg-graph.png''),
     ((''lecture-08'', ''gen_03_euler_path''), ''03-euler-path-rule.png''),
     ((''lecture-08'', ''gen_04_cayley_trees''), ''04-cayley-trees.png''),
     ((''lecture-08'', ''gen_05_parse_tree''), ''05-parse-tree.png''),
     ((''lecture-08'', ''gen_06_random_graph''), ''06-random-graph-phases.png''),
     ((''lecture-08'', ''gen_07_small_world''), ''07-small-world.png''),
     ((''lecture-08'', ''gen_08_six_degrees''), ''08-six-degrees.png''),
     ((''lecture-08'', ''gen_09_pagerank''), ''09-pagerank-web.png''),
     ((''lecture-08'', ''gen_10_pagerank_surfer''), ''10-pagerank-surfer.png''),
     ((''lecture-08'', ''gen_11_nn_architectures''), ''11-nn-architectures.png''),
     ((''lecture-08'', ''gen_12_attention''), ''12-attention-complete.png''),
     ((''lecture-08'', ''gen_13_knowledge_graph''), ''13-knowledge-graph.png''),
     ((''lecture-08'', ''gen_14_rag_pipeline''), ''14-rag-pipeline.png''),
     ((''lecture-08'', ''gen_15_gnn_message''), ''15-gnn-message.png''),
     ((''lecture-08'', ''gen_16_molecule''), ''16-molecule-graph.png''),
     ((''lecture-08'', ''gen_17_timeline''), ''17-timeline-chain.png''),
     ((''lecture-08'', ''gen_18_milgram_letters''), ''18-milgram-letters.png''),
     ((''lecture-08'', ''gen_19_graphrag_concept''), ''19-graphrag-concept.png''),
     ((''lecture-08'', ''gen_20_attention_heatmap''), ''20-attention-heatmap.png''),
     ((''lecture-08'', ''gen_21_multihead_attention''), ''21-multihead-attention.png''),
     ((''lecture-08'', ''gen_22_sparse_dense_attention''), ''22-sparse-dense-attention.png''),
     ((''lecture-08'', ''gen_23_gnn_vs_transformer''), ''23-gnn-vs-transformer.png''),
     ((''lecture-08'', ''gen_24_emergence''), ''24-emergence-phase-transition.png''),
     ((''lecture-08'', ''gen_25_math_constellation''), ''25-math-constellation.png''),
     ((''lecture-08'', ''gen_26_attention_derivation''), ''26-attention-derivation.png''),
     ((''lecture-08'', ''gen_27_llm_cross_section''), ''27-llm-cross-section.png''),
     ((''lecture-08'', ''gen_28_scaling_laws''), ''28-scaling-laws.png''),
     ((''lecture-08'', ''gen_29_five_pillars''), ''29-five-pillars.png''),
     ((''lecture-new'', ''gen_02_word_vectors''), ''02-word-vectors.png''),
     ((''lecture-new'', ''gen_04_galton_board''), ''04-galton-board.png''),
     ((''lecture-new'', ''gen_10_convergence''), ''10-convergence.png''),
     ((''lecture-new'', ''gen_11_timeline''), ''11-timeline.png''),
     ((''lecture-new'', ''gen_15_hero_neural_net''), ''15-hero-neural-net.png''),
     ((''lecture-new'', ''gen_16_token_pipeline''), ''16-token-pipeline.png''),
     ((''lecture-new'', ''gen_18_backprop_flow''), ''18-backprop-flow.png''),
     ((''lecture-new'', ''gen_19_radar_pillars''), ''19-radar-pillars.png''),
     ((''lecture-new-v2'', ''gen_01_five_pillars_overview''), ''01-five-pillars-overview.png''),
     ((''lecture-new-v2'', ''gen_03_softmax''), ''03-softmax.png''),
     ((''lecture-new-v2'', ''gen_05_gradient_descent''), ''05-gradient-descent.png''),
     ((''lecture-new-v2'', ''gen_06_cross_entropy''), ''06-cross-entropy.png''),
     ((''lecture-new-v2'', ''gen_07_shannon_diagram''), ''07-shannon-diagram.png''),
     ((''lecture-new-v2'', ''gen_08_optimizers''), ''08-optimizers.png''),
     ((''lecture-new-v2'', ''gen_09_scaling_laws''), ''09-scaling-laws.png''),
     ((''lecture-new-v2'', ''gen_12_embedding_space''), ''12-embedding-space.png''),
     ((''lecture-new-v2'', ''gen_13_loss_curve''), ''13-loss-curve.png''),
     ((''lecture-new-v2'', ''gen_14_attention_heatmap''), ''14-attention-heatmap.png''),
     ((''lecture-new-v2'', ''gen_17_matrix_multiply''), ''17-matrix-multiply.png'')]"

text \<open>
  \<^verbatim>\<open>gen_20_section_icons\<close> saves inside a loop over \<^verbatim>\<open>ICONS\<close> (file name, symbol,
  colour; the two symbols outside ASCII are written by their code points):
  \<^verbatim>\<open>
  def main():
      for filename, symbol, color in ICONS:
          output_path = os.path.join(SCRIPT_DIR, '..', 'images', filename)
          ...
          plt.savefig(output_path, dpi=200, bbox_inches='tight', ...)
  \<close>
\<close>

definition ICONS :: "(string \<times> string \<times> string) list" where
  "ICONS =
    [(''20a-icon-linalg.png'', ''[M]'', ''#3498db''),
     (''20b-icon-prob.png'', ''P(x)'', ''#2ecc71''),
     (''20c-icon-calc.png'', ''U+2207'', ''#e67e22''),
     (''20d-icon-info.png'', ''H'', ''#1abc9c''),
     (''20e-icon-optim.png'', ''U+2193'', ''#f1c40f'')]"

fun section_icons_loop ::
  "string \<Rightarrow> (string \<times> string \<times> string) list \<Rightarrow> string list \<Rightarrow> string list" where
  "section_icons_loop script_dir [] saved = saved"
| "section_icons_loop script_dir ((filename, symbol, color) # rest) saved =
     (let output_path = os_path_join script_dir [''..'', ''images'', filename]
      in section_icons_loop script_dir rest (saved @ [output_path]))"

definition section_icons_main :: "string \<Rightarrow> string list" where
  "section_icons_main script_dir = section_icons_loop script_dir ICONS []"

text \<open>The calls of \<^verbatim>\<open>savefig\<close> of one run of a generator whose file is in \<open>script_dir\<close>.\<close>

definition savefig_calls :: "string \<Rightarrow> string \<times> string \<Rightarrow> string list" where
  "savefig_calls script_dir g =
     (if g = (''lecture-new'', ''gen_20_section_icons'') then section_icons_main script_dir
      else case map_of OUTPUT_FILE g of
             Some file \<Rightarrow> [os_path_join script_dir [''..'', ''images'', file]]
           | None \<Rightarrow> [])"

definition is_png :: "string \<Rightarrow> bool" where
  "is_png file = (drop (length file - 4) file = ''.png'')"

lemma generators_value:
  "generators = take 37 (map fst OUTPUT_FILE) @ [(''lecture-new'', ''gen_20_section_icons'')] @ drop 37 (map fst OUTPUT_FILE)"
  by code_simp

lemma output_files_png: "list_all (\<lambda>(g, file). is_png file) OUTPUT_FILE"
  by code_simp

lemma section_icons_loop_append:
  "section_icons_loop script_dir icons saved =
     saved @ map (\<lambda>(filename, symbol, color). os_path_join script_dir [''..'', ''images'', filename])
       icons"
  by (induction icons arbitrary: saved) (simp_all add: Let_def split: prod.splits)

lemma single_output:
  assumes "g \<in> set generators" and "g \<noteq> (''lecture-new'', ''gen_20_section_icons'')"
  shows "\<exists>file. is_png file
      \<and> savefig_calls script_dir g = [os_path_join script_dir [''..'', ''images'', file]]"
proof -
  from assms have "g \<in> set (take 37 (map fst OUTPUT_FILE)) \<union> set (drop 37 (map fst OUTPUT_FILE))"
    unfolding generators_value by auto
  then have "g \<in> fst ` set OUTPUT_FILE"
    using set_take_subset [of 37 "map fst OUTPUT_FILE"] set_drop_subset [of 37 "map fst OUTPUT_FILE"]
    by auto
  then obtain png where f: "map_of OUTPUT_FILE g = Some png"
    using map_of_eq_None_iff [of OUTPUT_FILE g] by (cases "map_of OUTPUT_FILE g") auto
  then have "(g, png) \<in> set OUTPUT_FILE" by (rule map_of_SomeD)
  with output_files_png have "is_png png" by (auto simp: list_all_iff)
  with f assms(2) show ?thesis by (intro exI [of _ png]) (simp add: savefig_calls_def)
qed




subsection \<open>\<^verbatim>\<open>gen_04_cayley_trees\<close>: all labeled trees from Pr\"ufer sequences\<close>

text \<open>
  \<^verbatim>\<open>
  def prufer_to_tree(prufer_seq, n):
      degree = {i: 1 for i in range(1, n + 1)}
      for v in prufer_seq:
          degree[v] += 1
  \<close>
  The dictionary \<^verbatim>\<open>degree\<close> is a map; \<^verbatim>\<open>degree[v] += 1\<close> raises \<^verbatim>\<open>KeyError\<close> for a key
  it lacks.  Labels and \<open>n\<close> are natural numbers, degrees are integers.
\<close>

definition init_degree :: "nat \<Rightarrow> (nat \<rightharpoonup> int)" where
  "init_degree n = map_of (map (\<lambda>i. (i, 1)) [1 ..< Suc n])"

fun count_loop :: "(nat \<rightharpoonup> int) \<Rightarrow> nat list \<Rightarrow> py_error + (nat \<rightharpoonup> int)" where
  "count_loop degree [] = Inr degree"
| "count_loop degree (v # vs) =
     (case degree v of
        None \<Rightarrow> Inl KeyError
      | Some d \<Rightarrow> count_loop (degree(v \<mapsto> d + 1)) vs)"

text \<open>\<^verbatim>\<open>degree[k] -= 1\<close>.\<close>

definition decrement :: "(nat \<rightharpoonup> int) \<Rightarrow> nat \<Rightarrow> py_error + (nat \<rightharpoonup> int)" where
  "decrement degree k =
     (case degree k of
        None \<Rightarrow> Inl KeyError
      | Some d \<Rightarrow> Inr (degree(k \<mapsto> d - 1)))"

text \<open>
  \<^verbatim>\<open>
      edges = []
      seq = list(prufer_seq)
      for v in seq:
          for u in range(1, n + 1):
              if degree[u] == 1:
                  edges.append((u, v))
                  degree[u] -= 1
                  degree[v] -= 1
                  break
  \<close>
  The inner loop looks for the first \<open>u\<close> of degree 1 and does nothing when there is
  none.  (\<open>edge_list\<close> is the source's \<^verbatim>\<open>edges\<close>.)
\<close>

fun edge_loop ::
  "nat \<Rightarrow> nat list \<Rightarrow> (nat \<rightharpoonup> int) \<times> (nat \<times> nat) list
    \<Rightarrow> py_error + ((nat \<rightharpoonup> int) \<times> (nat \<times> nat) list)" where
  "edge_loop n [] (degree, edge_list) = Inr (degree, edge_list)"
| "edge_loop n (v # vs) (degree, edge_list) =
     (case find (\<lambda>u. degree u = Some 1) [1 ..< Suc n] of
        None \<Rightarrow> edge_loop n vs (degree, edge_list)
      | Some u \<Rightarrow>
          (case decrement degree u of
             Inl err \<Rightarrow> Inl err
           | Inr degree1 \<Rightarrow>
               (case decrement degree1 v of
                  Inl err \<Rightarrow> Inl err
                | Inr degree2 \<Rightarrow> edge_loop n vs (degree2, edge_list @ [(u, v)]))))"

text \<open>
  \<^verbatim>\<open>
      last = [u for u in range(1, n + 1) if degree[u] == 1]
      if len(last) == 2:
          edges.append((last[0], last[1]))
      return edges
  \<close>
  (\<open>last_two\<close> is the source's \<^verbatim>\<open>last\<close>.)
\<close>

definition prufer_to_tree :: "nat list \<Rightarrow> nat \<Rightarrow> py_error + (nat \<times> nat) list" where
  "prufer_to_tree prufer_seq n =
     (case count_loop (init_degree n) prufer_seq of
        Inl err \<Rightarrow> Inl err
      | Inr degree \<Rightarrow>
          (case edge_loop n prufer_seq (degree, []) of
             Inl err \<Rightarrow> Inl err
           | Inr (degree', edge_list) \<Rightarrow>
               (let last_two = filter (\<lambda>u. degree' u = Some 1) [1 ..< Suc n]
                in if length last_two = 2 then Inr (edge_list @ [(last_two ! 0, last_two ! 1)])
                   else Inr edge_list)))"

text \<open>
  The operations of \<^verbatim>\<open>nx.Graph\<close> that \<^verbatim>\<open>all_labeled_trees\<close> uses.  Adding a node or an
  edge that the graph has changes nothing; an edge is the same edge in both orientations;
  adding an edge adds its endpoints.
\<close>

definition empty_graph :: graph where
  "empty_graph = \<lparr>nodes = [], edges = []\<rparr>"

definition add_node :: "graph \<Rightarrow> nat \<Rightarrow> graph" where
  "add_node G v = (if v \<in> set (nodes G) then G else G\<lparr>nodes := nodes G @ [v]\<rparr>)"

definition add_edge :: "graph \<Rightarrow> nat \<Rightarrow> nat \<Rightarrow> graph" where
  "add_edge G u v =
     (let G1 = add_node (add_node G u) v
      in if (u, v) \<in> set (edges G1) \<or> (v, u) \<in> set (edges G1) then G1
         else G1\<lparr>edges := edges G1 @ [(u, v)]\<rparr>)"

definition add_nodes_from :: "graph \<Rightarrow> nat list \<Rightarrow> graph" where
  "add_nodes_from G vs = foldl add_node G vs"

definition add_edges_from :: "graph \<Rightarrow> (nat \<times> nat) list \<Rightarrow> graph" where
  "add_edges_from G es = foldl (\<lambda>G (u, v). add_edge G u v) G es"

text \<open>
  \<^verbatim>\<open>
  def all_labeled_trees(n):
      if n == 1:
          return [nx.Graph()]
      if n == 2:
          G = nx.Graph()
          G.add_edge(1, 2)
          return [G]
      trees = []
      for seq in itertools.product(range(1, n + 1), repeat=n - 2):
          edges = prufer_to_tree(seq, n)
          G = nx.Graph()
          G.add_nodes_from(range(1, n + 1))
          G.add_edges_from(edges)
          trees.append(G)
      return trees
  \<close>
  \<^verbatim>\<open>itertools.product(xs, repeat=k)\<close> yields the \<open>k\<close>-tuples over \<open>xs\<close> in lexicographic
  order, as \<open>product_lists\<close> does, and raises \<^verbatim>\<open>ValueError\<close> for a negative \<open>k\<close>, which
  here is the case \<open>n = 0\<close>.
\<close>

fun trees_loop :: "nat \<Rightarrow> nat list list \<Rightarrow> graph list \<Rightarrow> py_error + graph list" where
  "trees_loop n [] trees = Inr trees"
| "trees_loop n (seq # seqs) trees =
     (case prufer_to_tree seq n of
        Inl err \<Rightarrow> Inl err
      | Inr edge_list \<Rightarrow>
          (let G = add_edges_from (add_nodes_from empty_graph [1 ..< Suc n]) edge_list
           in trees_loop n seqs (trees @ [G])))"

definition all_labeled_trees :: "nat \<Rightarrow> py_error + graph list" where
  "all_labeled_trees n =
     (if n = 1 then Inr [empty_graph]
      else if n = 2 then Inr [add_edge empty_graph 1 2]
      else if n < 2 then Inl ValueError
      else trees_loop n (product_lists (replicate (n - 2) [1 ..< Suc n])) [])"

text \<open>
  What the claim speaks of.  The edge set of a graph is the set of its unordered edges.
  A tree on the vertex set \<open>V\<close> is a set \<open>E\<close> of two-element subsets of \<open>V\<close> that is
  connected, has no cycle, and has \<open>card V - 1\<close> elements.  A cycle is a list of at least
  three different vertices in which each vertex is joined to the next, and the last to the
  first.
\<close>

definition edge_set :: "graph \<Rightarrow> nat set set" where
  "edge_set G = frozenset ` set (edges G)"

definition adjacent :: "nat set set \<Rightarrow> (nat \<times> nat) set" where
  "adjacent E = {(a, b). {a, b} \<in> E}"

definition connected_graph :: "nat set \<Rightarrow> nat set set \<Rightarrow> bool" where
  "connected_graph V E = (\<forall>a \<in> V. \<forall>b \<in> V. (a, b) \<in> (adjacent E)\<^sup>*)"

definition cycle :: "nat set set \<Rightarrow> nat list \<Rightarrow> bool" where
  "cycle E p = (3 \<le> length p \<and> distinct p
     \<and> (\<forall>i < length p. {p ! i, p ! (Suc i mod length p)} \<in> E))"

definition cycle_free :: "nat set set \<Rightarrow> bool" where
  "cycle_free E = (\<nexists>p. cycle E p)"

definition edges_within :: "nat set \<Rightarrow> nat set set \<Rightarrow> bool" where
  "edges_within V E = (\<forall>e \<in> E. \<exists>a \<in> V. \<exists>b \<in> V. a \<noteq> b \<and> e = {a, b})"

definition is_tree :: "nat set \<Rightarrow> nat set set \<Rightarrow> bool" where
  "is_tree V E = (finite V \<and> edges_within V E \<and> connected_graph V E \<and> cycle_free E
     \<and> card E = card V - 1)"

definition degree_in :: "nat set set \<Rightarrow> nat \<Rightarrow> nat" where
  "degree_in E u = card {e \<in> E. u \<in> e}"

text \<open>
  The Pr\"ufer sequence of a tree with at least two vertices: while more than two vertices
  are left, remove the least leaf and write down its neighbour.
\<close>

inductive prufer_of :: "nat set \<Rightarrow> nat set set \<Rightarrow> nat list \<Rightarrow> bool" where
  stop: "card V = 2 \<Longrightarrow> prufer_of V E []"
| strip: "3 \<le> card V \<Longrightarrow> u \<in> V \<Longrightarrow> degree_in E u = 1
    \<Longrightarrow> (\<forall>w \<in> V. degree_in E w = 1 \<longrightarrow> u \<le> w) \<Longrightarrow> {u, v} \<in> E
    \<Longrightarrow> prufer_of (V - {u}) (E - {{u, v}}) s \<Longrightarrow> prufer_of V E (v # s)"

text \<open>
  The tree of a sequence, written without the degree table: the edge from the least
  vertex that the sequence does not mention to the head of the sequence, and the tree of the
  tail on the other vertices; the last two vertices form the last edge.  A sequence is
  valid for a vertex set when it is over the set and two shorter than the set is large.
\<close>

fun decode :: "nat set \<Rightarrow> nat list \<Rightarrow> nat set set" where
  "decode A [] = {A}"
| "decode A (v # s) = (let u = Min (A - set (v # s)) in insert {u, v} (decode (A - {u}) s))"

lemma decode_Cons:
  "decode A (v # s) =
     insert {Min (A - set (v # s)), v} (decode (A - {Min (A - set (v # s))}) s)"
  by (simp add: Let_def)

declare decode.simps(2) [simp del]

definition valid :: "nat set \<Rightarrow> nat list \<Rightarrow> bool" where
  "valid A s = (finite A \<and> set s \<subseteq> A \<and> card A = length s + 2)"

text \<open>The degree table of the source when the vertices of \<open>A\<close> are left and \<open>s\<close> is to come.\<close>

definition deg_of :: "nat \<Rightarrow> nat set \<Rightarrow> nat list \<Rightarrow> (nat \<rightharpoonup> int)" where
  "deg_of n A s =
     (\<lambda>w. if w \<in> A then Some (1 + int (count_list s w))
          else if 1 \<le> w \<and> w \<le> n then Some 0 else None)"

text \<open>The graph built for one sequence, and the list of all sequences.\<close>

definition tree_of :: "nat \<Rightarrow> nat list \<Rightarrow> graph" where
  "tree_of n seq =
     (case prufer_to_tree seq n of
        Inl err \<Rightarrow> empty_graph
      | Inr edge_list \<Rightarrow> add_edges_from (add_nodes_from empty_graph [1 ..< Suc n]) edge_list)"

definition prufer_sequences :: "nat \<Rightarrow> nat list list" where
  "prufer_sequences n = product_lists (replicate (n - 2) [1 ..< Suc n])"

subsubsection \<open>Trees: attaching and removing a leaf\<close>

lemma edges_within_finite: "finite V \<Longrightarrow> edges_within V E \<Longrightarrow> finite E"
proof -
  assume f: "finite V" and w: "edges_within V E"
  have "E \<subseteq> Pow V" using w by (auto simp: edges_within_def)
  with f show "finite E" by (meson finite_Pow_iff finite_subset)
qed

lemma edges_within_subset: "edges_within V E \<Longrightarrow> e \<in> E \<Longrightarrow> e \<subseteq> V"
  by (auto simp: edges_within_def)

lemma adjacent_mono: "E \<subseteq> E' \<Longrightarrow> adjacent E \<subseteq> adjacent E'"
  by (auto simp: adjacent_def)

lemma cycle_mono: "E \<subseteq> E' \<Longrightarrow> cycle E p \<Longrightarrow> cycle E' p"
  by (auto simp: cycle_def)

lemma cycle_free_subset: "E \<subseteq> E' \<Longrightarrow> cycle_free E' \<Longrightarrow> cycle_free E"
  unfolding cycle_free_def using cycle_mono by blast

text \<open>A vertex of a cycle has two different neighbours on it.\<close>

lemma cycle_two_neighbours:
  assumes "cycle E p" and "u \<in> set p"
  shows "\<exists>a b. a \<noteq> b \<and> a \<noteq> u \<and> b \<noteq> u \<and> {u, a} \<in> E \<and> {b, u} \<in> E"
proof -
  let ?n = "length p"
  from assms(1) have n: "3 \<le> ?n" and d: "distinct p"
    and e: "\<And>i. i < ?n \<Longrightarrow> {p ! i, p ! (Suc i mod ?n)} \<in> E"
    by (auto simp: cycle_def)
  from assms(2) obtain i where i: "i < ?n" and pi: "p ! i = u"
    by (auto simp: in_set_conv_nth)
  let ?s = "Suc i mod ?n"
  let ?r = "if i = 0 then ?n - 1 else i - 1"
  from n have pos: "0 < ?n" by linarith
  have s: "?s < ?n" using pos by simp
  have r: "?r < ?n" using pos i by auto
  have sval: "?s = (if Suc i = ?n then 0 else Suc i)"
    using i by (simp add: mod_Suc)
  have "Suc (?n - 1) = ?n" using pos by simp
  then have rs: "Suc ?r mod ?n = i" using i by auto
  have si: "?s \<noteq> i" unfolding sval using n by auto
  have ri: "?r \<noteq> i" using n by auto
  have sr: "?s \<noteq> ?r" unfolding sval using n i by auto
  have "{u, p ! ?s} \<in> E" using e [OF i] pi by simp
  moreover have "{p ! ?r, u} \<in> E" using e [OF r] rs pi by simp
  moreover have "p ! ?s \<noteq> u" using d s i si pi by (auto simp: nth_eq_iff_index_eq)
  moreover have "p ! ?r \<noteq> u" using d r i ri pi by (auto simp: nth_eq_iff_index_eq)
  moreover have "p ! ?s \<noteq> p ! ?r" using d s r sr by (simp add: nth_eq_iff_index_eq)
  ultimately show ?thesis by blast
qed

lemma cycle_avoids:
  assumes "cycle (insert e E) p" and "\<not> e \<subseteq> set p"
  shows "cycle E p"
proof -
  have "{p ! i, p ! (Suc i mod length p)} \<in> E" if i: "i < length p" for i
  proof -
    from assms(1) i have m: "{p ! i, p ! (Suc i mod length p)} \<in> insert e E"
      and n: "3 \<le> length p"
      by (auto simp: cycle_def)
    from n have "0 < length p" by linarith
    then have "Suc i mod length p < length p" by simp
    with i have "{p ! i, p ! (Suc i mod length p)} \<subseteq> set p"
      by simp
    with assms(2) have "{p ! i, p ! (Suc i mod length p)} \<noteq> e" by auto
    with m show ?thesis by simp
  qed
  with assms(1) show ?thesis by (simp add: cycle_def)
qed

lemma tree_single: "is_tree {a} {}"
proof -
  have "\<not> cycle {} p" for p
  proof
    assume "cycle {} p"
    then have "3 \<le> length p" and "\<forall>i < length p. {p ! i, p ! (Suc i mod length p)} \<in> {}"
      by (auto simp: cycle_def)
    moreover from this have "0 < length p" by linarith
    ultimately show False by blast
  qed
  then show ?thesis
    by (simp add: is_tree_def edges_within_def connected_graph_def cycle_free_def)
qed

lemma tree_attach_leaf:
  assumes t: "is_tree V E" and u: "u \<notin> V" and v: "v \<in> V"
  shows "is_tree (insert u V) (insert {u, v} E)"
proof -
  from t have fin: "finite V" and w: "edges_within V E" and c: "connected_graph V E"
    and cf: "cycle_free E" and card: "card E = card V - 1"
    by (simp_all add: is_tree_def)
  have finE: "finite E" using edges_within_finite [OF fin w] .
  have uv: "u \<noteq> v" using u v by auto
  have notin: "{u, v} \<notin> E"
    using edges_within_subset [OF w, of "{u, v}"] u by auto
  have w': "edges_within (insert u V) (insert {u, v} E)"
    unfolding edges_within_def
  proof
    fix e assume "e \<in> insert {u, v} E"
    then consider "e = {u, v}" | "e \<in> E" by auto
    then show "\<exists>a \<in> insert u V. \<exists>b \<in> insert u V. a \<noteq> b \<and> e = {a, b}"
    proof cases
      case 1
      with uv v show ?thesis by blast
    next
      case 2
      with w obtain a b where "a \<in> V" "b \<in> V" "a \<noteq> b" "e = {a, b}"
        unfolding edges_within_def by blast
      then show ?thesis by blast
    qed
  qed
  let ?R = "adjacent E" and ?R' = "adjacent (insert {u, v} E)"
  have sub: "?R\<^sup>* \<subseteq> ?R'\<^sup>*"
    by (rule rtrancl_mono) (auto simp: adjacent_def)
  have uv': "(u, v) \<in> ?R'" and vu': "(v, u) \<in> ?R'"
    by (auto simp: adjacent_def insert_commute)
  have to_v: "(x, v) \<in> ?R'\<^sup>*" if "x \<in> insert u V" for x
  proof (cases "x = u")
    case True
    with uv' show ?thesis by auto
  next
    case False
    with that have "x \<in> V" by simp
    with c v have "(x, v) \<in> ?R\<^sup>*" by (simp add: connected_graph_def)
    with sub show ?thesis by auto
  qed
  have from_v: "(v, y) \<in> ?R'\<^sup>*" if "y \<in> insert u V" for y
  proof (cases "y = u")
    case True
    with vu' show ?thesis by auto
  next
    case False
    with that have "y \<in> V" by simp
    with c v have "(v, y) \<in> ?R\<^sup>*" by (simp add: connected_graph_def)
    with sub show ?thesis by auto
  qed
  have c': "connected_graph (insert u V) (insert {u, v} E)"
    unfolding connected_graph_def using to_v from_v by (meson rtrancl_trans)
  have cf': "cycle_free (insert {u, v} E)"
    unfolding cycle_free_def
  proof
    assume "\<exists>p. cycle (insert {u, v} E) p"
    then obtain p where p: "cycle (insert {u, v} E) p" ..
    show False
    proof (cases "u \<in> set p")
      case True
      from cycle_two_neighbours [OF p True] obtain a b where ab: "a \<noteq> b" "a \<noteq> u" "b \<noteq> u"
        and ea: "{u, a} \<in> insert {u, v} E" and eb: "{b, u} \<in> insert {u, v} E"
        by blast
      have "{u, a} \<notin> E" using edges_within_subset [OF w, of "{u, a}"] u by auto
      with ea have "a = v" by (auto simp: doubleton_eq_iff)
      moreover have "{b, u} \<notin> E" using edges_within_subset [OF w, of "{b, u}"] u by auto
      with eb have "b = v" by (auto simp: doubleton_eq_iff)
      ultimately show False using ab by simp
    next
      case False
      then have "\<not> {u, v} \<subseteq> set p" by simp
      from cycle_avoids [OF p this] cf show False by (simp add: cycle_free_def)
    qed
  qed
  have pos: "0 < card V" using fin v by (auto simp: card_gt_0_iff)
  have "card (insert {u, v} E) = Suc (card E)" using finE notin by simp
  moreover have "card (insert u V) = Suc (card V)" using fin u by simp
  ultimately have card': "card (insert {u, v} E) = card (insert u V) - 1"
    using card pos by linarith
  show ?thesis
    unfolding is_tree_def using fin w' c' cf' card' by simp
qed

lemma tree_pair: "a \<noteq> b \<Longrightarrow> is_tree {a, b} {{a, b}}"
  using tree_attach_leaf [OF tree_single, of a b b] by simp

lemma leaf_edge_unique:
  assumes fin: "finite E" and d: "degree_in E u = 1" and e: "e \<in> E" "u \<in> e"
    and e': "e' \<in> E" "u \<in> e'"
  shows "e = e'"
proof -
  from d obtain x where x: "{e \<in> E. u \<in> e} = {x}"
    by (auto simp: degree_in_def card_1_singleton_iff)
  from e e' have "e \<in> {e \<in> E. u \<in> e}" and "e' \<in> {e \<in> E. u \<in> e}" by auto
  with x show ?thesis by auto
qed

lemma tree_remove_leaf:
  assumes t: "is_tree V E" and u: "u \<in> V" and d: "degree_in E u = 1" and uv: "{u, v} \<in> E"
  shows "is_tree (V - {u}) (E - {{u, v}})"
proof -
  from t have fin: "finite V" and w: "edges_within V E" and c: "connected_graph V E"
    and cf: "cycle_free E" and card: "card E = card V - 1"
    by (simp_all add: is_tree_def)
  have finE: "finite E" using edges_within_finite [OF fin w] .
  have only: "e = {u, v}" if "e \<in> E" and "u \<in> e" for e
    using leaf_edge_unique [OF finE d that uv] by simp
  have w': "edges_within (V - {u}) (E - {{u, v}})"
    unfolding edges_within_def
  proof
    fix e assume e: "e \<in> E - {{u, v}}"
    then have eE: "e \<in> E" and ne: "e \<noteq> {u, v}" by auto
    from w eE obtain a b where ab: "a \<in> V" "b \<in> V" "a \<noteq> b" "e = {a, b}"
      unfolding edges_within_def by blast
    from eE ne only have "u \<notin> e" by blast
    with ab show "\<exists>a \<in> V - {u}. \<exists>b \<in> V - {u}. a \<noteq> b \<and> e = {a, b}" by auto
  qed
  let ?R = "adjacent E" and ?R' = "adjacent (E - {{u, v}})"
  have reach: "(z \<noteq> u \<longrightarrow> (x, z) \<in> ?R'\<^sup>*) \<and> (z = u \<longrightarrow> (x, v) \<in> ?R'\<^sup>*)"
    if x: "x \<noteq> u" and xz: "(x, z) \<in> ?R\<^sup>*" for x z
    using xz
  proof (induction rule: rtrancl_induct)
    case base
    with x show ?case by simp
  next
    case (step y z)
    from step.hyps(2) have yz: "{y, z} \<in> E" by (simp add: adjacent_def)
    show ?case
    proof (cases "y = u")
      case True
      with yz only have "{u, z} = {u, v}" by auto
      then have "z = v" by (auto simp: doubleton_eq_iff)
      with True step.IH show ?thesis by auto
    next
      case yu: False
      show ?thesis
      proof (cases "z = u")
        case True
        with yz only have "{y, u} = {u, v}" by auto
        then have "y = v" using yu by (auto simp: doubleton_eq_iff)
        with True yu step.IH show ?thesis by auto
      next
        case False
        with yu have "{y, z} \<noteq> {u, v}" by (auto simp: doubleton_eq_iff)
        with yz have "(y, z) \<in> ?R'" by (simp add: adjacent_def)
        with yu step.IH False show ?thesis by auto
      qed
    qed
  qed
  have c': "connected_graph (V - {u}) (E - {{u, v}})"
    unfolding connected_graph_def
  proof (intro ballI)
    fix a b assume a: "a \<in> V - {u}" and b: "b \<in> V - {u}"
    with c have "(a, b) \<in> ?R\<^sup>*" by (simp add: connected_graph_def)
    from reach [OF _ this] a b show "(a, b) \<in> ?R'\<^sup>*" by simp
  qed
  have cf': "cycle_free (E - {{u, v}})"
    by (rule cycle_free_subset [OF _ cf]) auto
  have "card (E - {{u, v}}) = card E - 1" using finE uv by simp
  moreover have "card (V - {u}) = card V - 1" using fin u by simp
  ultimately have card': "card (E - {{u, v}}) = card (V - {u}) - 1"
    using card by simp
  show ?thesis
    unfolding is_tree_def using fin w' c' cf' card' by simp
qed

lemma handshake:
  assumes fin: "finite V" and w: "edges_within V E"
  shows "(\<Sum>u \<in> V. degree_in E u) = 2 * card E"
proof -
  have finE: "finite E" using edges_within_finite [OF fin w] .
  have "(\<Sum>u \<in> V. degree_in E u) = (\<Sum>u \<in> V. \<Sum>e \<in> E. if u \<in> e then 1 else 0)"
    using finE by (simp add: degree_in_def sum.inter_filter [symmetric])
  also have "\<dots> = (\<Sum>e \<in> E. \<Sum>u \<in> V. if u \<in> e then 1 else 0)"
    by (rule sum.swap)
  also have "\<dots> = (\<Sum>e \<in> E. 2)"
  proof (rule sum.cong)
    fix e assume "e \<in> E"
    with w obtain a b where ab: "a \<in> V" "b \<in> V" "a \<noteq> b" "e = {a, b}"
      by (auto simp: edges_within_def)
    have "(\<Sum>u \<in> V. if u \<in> e then 1 else 0) = card {u \<in> V. u \<in> e}"
      using fin by (simp add: sum.inter_filter [symmetric])
    also have "{u \<in> V. u \<in> e} = {a, b}" using ab by auto
    also have "card {a, b} = 2" using ab by simp
    finally show "(\<Sum>u \<in> V. if u \<in> e then 1 else 0) = (2::nat)" .
  qed simp
  also have "\<dots> = 2 * card E" by simp
  finally show ?thesis .
qed

lemma tree_has_leaf:
  assumes t: "is_tree V E" and two: "2 \<le> card V"
  shows "\<exists>u \<in> V. degree_in E u = 1"
proof (rule ccontr)
  assume no: "\<not> (\<exists>u \<in> V. degree_in E u = 1)"
  from t have fin: "finite V" and w: "edges_within V E" and c: "connected_graph V E"
    and card: "card E = card V - 1"
    by (simp_all add: is_tree_def)
  have finE: "finite E" using edges_within_finite [OF fin w] .
  have "2 \<le> degree_in E u" if u: "u \<in> V" for u
  proof -
    from two fin u obtain x where x: "x \<in> V" "x \<noteq> u"
      by (metis card_le_Suc0_iff_eq not_less_eq_eq numeral_2_eq_2)
    with c u have "(u, x) \<in> (adjacent E)\<^sup>*" by (simp add: connected_graph_def)
    with x obtain z where "(u, z) \<in> adjacent E"
      by (auto elim: converse_rtranclE)
    then have "{u, z} \<in> {e \<in> E. u \<in> e}" by (simp add: adjacent_def)
    moreover have "finite {e \<in> E. u \<in> e}" using finE by simp
    ultimately have "degree_in E u \<noteq> 0"
      unfolding degree_in_def by (metis card_0_eq empty_iff)
    moreover from no u have "degree_in E u \<noteq> 1" by blast
    ultimately show ?thesis by linarith
  qed
  then have "(\<Sum>u \<in> V. 2) \<le> (\<Sum>u \<in> V. degree_in E u)"
    by (intro sum_mono) simp
  with handshake [OF fin w] have "2 * card V \<le> 2 * card E" by simp
  with card two show False by simp
qed

subsubsection \<open>The tree of a sequence, and the sequence of a tree\<close>

lemma valid_unused:
  assumes "valid A s"
  shows "A - set s \<noteq> {}" and "finite (A - set s)"
proof -
  from assms have fin: "finite A" and c: "card A = length s + 2"
    by (simp_all add: valid_def)
  show "A - set s \<noteq> {}"
  proof
    assume "A - set s = {}"
    then have "A \<subseteq> set s" by auto
    then have "card A \<le> card (set s)" by (simp add: card_mono)
    also have "\<dots> \<le> length s" by (rule card_length)
    finally show False using c by simp
  qed
  show "finite (A - set s)" using fin by simp
qed

lemma valid_step:
  assumes "valid A (v # s)" and "u = Min (A - set (v # s))"
  shows "u \<in> A" and "u \<notin> set (v # s)" and "valid (A - {u}) s" and "v \<in> A - {u}"
    and "\<forall>w \<in> A - set (v # s). u \<le> w"
proof -
  from valid_unused [OF assms(1)] assms(2)
  have m: "u \<in> A - set (v # s)" by (metis Min_in)
  then show "u \<in> A" and "u \<notin> set (v # s)" by auto
  from assms(1) have fin: "finite A" and sub: "set (v # s) \<subseteq> A"
    and c: "card A = length (v # s) + 2"
    by (simp_all add: valid_def)
  from m fin c have "card (A - {u}) = length s + 2" by simp
  with fin sub m show "valid (A - {u}) s" by (auto simp: valid_def)
  from sub m show "v \<in> A - {u}" by auto
  from valid_unused(2) [OF assms(1)] assms(2)
  show "\<forall>w \<in> A - set (v # s). u \<le> w" by simp
qed

lemma valid_two: "valid A [] \<Longrightarrow> \<exists>a b. a \<noteq> b \<and> A = {a, b}"
proof -
  assume "valid A []"
  then have "card A = 2" by (simp add: valid_def)
  then show ?thesis unfolding card_2_iff by blast
qed

lemma decode_tree: "valid A s \<Longrightarrow> is_tree A (decode A s)"
proof (induction s arbitrary: A)
  case Nil
  from valid_two [OF Nil] obtain a b where "a \<noteq> b" "A = {a, b}" by blast
  then show ?case using tree_pair [of a b] by simp
next
  case (Cons v s)
  define u where "u = Min (A - set (v # s))"
  note st = valid_step [OF Cons.prems u_def]
  have "is_tree (A - {u}) (decode (A - {u}) s)" using Cons.IH [OF st(3)] .
  from tree_attach_leaf [OF this, of u v] st(4) st(1)
  have "is_tree A (insert {u, v} (decode (A - {u}) s))"
    by (simp add: insert_absorb)
  then show ?case by (simp add: decode_Cons u_def)
qed

lemma decode_finite: "valid A s \<Longrightarrow> finite (decode A s)"
  using decode_tree [of A s] edges_within_finite [of A "decode A s"]
  by (simp add: is_tree_def)

lemma decode_within: "valid A s \<Longrightarrow> e \<in> decode A s \<Longrightarrow> e \<subseteq> A"
  using decode_tree [of A s] edges_within_subset [of A "decode A s" e]
  by (simp add: is_tree_def)

lemma degree_in_insert:
  assumes "finite E" and "e \<notin> E"
  shows "degree_in (insert e E) w = (if w \<in> e then 1 else 0) + degree_in E w"
proof (cases "w \<in> e")
  case True
  then have eq: "{x \<in> insert e E. w \<in> x} = insert e {x \<in> E. w \<in> x}" by auto
  have notin: "e \<notin> {x \<in> E. w \<in> x}" using assms(2) by simp
  have fin: "finite {x \<in> E. w \<in> x}" using assms(1) by simp
  have "card {x \<in> insert e E. w \<in> x} = Suc (card {x \<in> E. w \<in> x})"
    unfolding eq using fin notin by (rule card_insert_disjoint)
  with True show ?thesis by (simp add: degree_in_def)
next
  case False
  then have "{x \<in> insert e E. w \<in> x} = {x \<in> E. w \<in> x}" by auto
  with False show ?thesis by (simp add: degree_in_def)
qed

lemma decode_degree:
  "valid A s \<Longrightarrow> w \<in> A \<Longrightarrow> degree_in (decode A s) w = 1 + count_list s w"
proof (induction s arbitrary: A)
  case Nil
  then have "{e \<in> {A}. w \<in> e} = {A}" by auto
  then show ?case by (simp add: degree_in_def)
next
  case (Cons v s)
  define u where "u = Min (A - set (v # s))"
  note st = valid_step [OF Cons.prems(1) u_def]
  let ?E = "decode (A - {u}) s"
  have fin: "finite ?E" using decode_finite [OF st(3)] .
  have notin: "{u, v} \<notin> ?E" using decode_within [OF st(3), of "{u, v}"] by auto
  have E: "decode A (v # s) = insert {u, v} ?E" by (simp add: decode_Cons u_def)
  show ?case
  proof (cases "w = u")
    case True
    have "degree_in ?E u = 0"
    proof -
      have "{e \<in> ?E. u \<in> e} = {}" using decode_within [OF st(3)] by auto
      then show ?thesis unfolding degree_in_def by (simp only: card.empty)
    qed
    moreover have "count_list (v # s) u = 0" using st(2) by (simp add: count_list_0_iff)
    ultimately show ?thesis
      unfolding E degree_in_insert [OF fin notin] using True by simp
  next
    case False
    with Cons.prems(2) have "w \<in> A - {u}" by simp
    from Cons.IH [OF st(3) this] have "degree_in ?E w = 1 + count_list s w" .
    with False show ?thesis
      unfolding E degree_in_insert [OF fin notin] by auto
  qed
qed

lemma decode_leaves:
  "valid A s \<Longrightarrow> w \<in> A \<Longrightarrow> (degree_in (decode A s) w = 1) = (w \<notin> set s)"
  by (simp add: decode_degree count_list_0_iff)

lemma decode_prufer: "valid A s \<Longrightarrow> prufer_of A (decode A s) s"
proof (induction s arbitrary: A)
  case Nil
  then show ?case by (simp add: valid_def prufer_of.stop)
next
  case (Cons v s)
  define u where "u = Min (A - set (v # s))"
  note st = valid_step [OF Cons.prems u_def]
  let ?E = "decode (A - {u}) s"
  have notin: "{u, v} \<notin> ?E" using decode_within [OF st(3), of "{u, v}"] by auto
  have E: "decode A (v # s) = insert {u, v} ?E" by (simp add: decode_Cons u_def)
  have c: "3 \<le> card A" using Cons.prems by (simp add: valid_def)
  have leaf: "degree_in (decode A (v # s)) u = 1"
    using decode_leaves [OF Cons.prems st(1)] st(2) by simp
  have least: "\<forall>w \<in> A. degree_in (decode A (v # s)) w = 1 \<longrightarrow> u \<le> w"
    using decode_leaves [OF Cons.prems] st(5) by auto
  have rest: "decode A (v # s) - {{u, v}} = ?E" unfolding E using notin by simp
  have "prufer_of (A - {u}) (decode A (v # s) - {{u, v}}) s"
    unfolding rest using Cons.IH [OF st(3)] .
  moreover have "{u, v} \<in> decode A (v # s)" unfolding E by simp
  ultimately show ?case
    using c st(1) leaf least by (intro prufer_of.strip [of A u])
qed

lemma prufer_unique:
  "prufer_of V E s \<Longrightarrow> finite E \<Longrightarrow> prufer_of V E t \<Longrightarrow> s = t"
proof (induction arbitrary: t rule: prufer_of.induct)
  case (stop V E)
  from stop.prems(2) stop.hyps show ?case
    by (cases rule: prufer_of.cases) auto
next
  case (strip V u E v s)
  from strip.prems(2) show ?case
  proof (cases rule: prufer_of.cases)
    case stop
    with strip.hyps(1) show ?thesis by simp
  next
    case (strip u' v' s')
    have "u' \<le> u" using strip(5) strip.hyps(2,3) by simp
    moreover have "u \<le> u'" using strip.hyps(4) strip(3,4) by simp
    ultimately have u: "u' = u" by simp
    have "{u, v} = {u, v'}"
      using leaf_edge_unique [OF strip.prems(1) strip.hyps(3) strip.hyps(5) _ strip(6) [unfolded u]]
      by simp
    then have v: "v' = v" by (auto simp: doubleton_eq_iff)
    have "s = s'"
      using strip.IH [of s'] strip.prems(1) strip(7) unfolding u v by simp
    with v strip(1) show ?thesis by simp
  qed
qed

lemma prufer_decode:
  "prufer_of V E s \<Longrightarrow> is_tree V E \<Longrightarrow> valid V s \<and> E = decode V s"
proof (induction rule: prufer_of.induct)
  case (stop V E)
  from stop.prems have fin: "finite V" and w: "edges_within V E" and c: "card E = card V - 1"
    by (simp_all add: is_tree_def)
  from stop.hyps obtain a b where ab: "a \<noteq> b" "V = {a, b}" by (auto simp: card_2_iff)
  from c stop.hyps have "card E = 1" by simp
  then obtain e where e: "E = {e}" by (auto simp: card_1_singleton_iff)
  with w obtain x y where "x \<in> V" "y \<in> V" "x \<noteq> y" "e = {x, y}"
    by (auto simp: edges_within_def)
  with ab have "e = V" by auto
  with e fin stop.hyps show ?case by (simp add: valid_def)
next
  case (strip V u E v s)
  from strip.prems have fin: "finite V" and w: "edges_within V E"
    by (simp_all add: is_tree_def)
  have finE: "finite E" using edges_within_finite [OF fin w] .
  have t': "is_tree (V - {u}) (E - {{u, v}})"
    using tree_remove_leaf [OF strip.prems strip.hyps(2,3,5)] .
  from strip.IH [OF t'] have val: "valid (V - {u}) s" and E': "E - {{u, v}} = decode (V - {u}) s"
    by simp_all
  from w strip.hyps(5) obtain x y where xy: "x \<in> V" "y \<in> V" "x \<noteq> y" "{u, v} = {x, y}"
    unfolding edges_within_def by blast
  then have vV: "v \<in> V" and uv: "u \<noteq> v" by (auto simp: doubleton_eq_iff)
  have valid: "valid V (v # s)"
    using val vV uv strip.hyps(2) fin by (auto simp: valid_def)
  have E: "E = insert {u, v} (decode (V - {u}) s)"
    using E' strip.hyps(5) by auto
  have notin: "{u, v} \<notin> decode (V - {u}) s"
    using decode_within [OF val, of "{u, v}"] by auto
  have finE': "finite (decode (V - {u}) s)" using decode_finite [OF val] .
  have deg: "degree_in E w = 1 + count_list (v # s) w" if "w \<in> V" "w \<noteq> u" for w
  proof -
    from that have "w \<in> V - {u}" by simp
    from decode_degree [OF val this] that(2) show ?thesis
      unfolding E degree_in_insert [OF finE' notin] by auto
  qed
  have unused: "u \<notin> set (v # s)" using val uv by (auto simp: valid_def)
  have leaves: "(degree_in E w = 1) = (w \<notin> set (v # s))" if "w \<in> V" for w
  proof (cases "w = u")
    case True
    with strip.hyps(3) unused show ?thesis by simp
  next
    case False
    from deg [OF that False] show ?thesis by (simp add: count_list_0_iff)
  qed
  have "Min (V - set (v # s)) = u"
  proof (rule Min_eqI)
    show "finite (V - set (v # s))" using fin by simp
    show "u \<in> V - set (v # s)" using strip.hyps(2) unused by simp
    fix w assume "w \<in> V - set (v # s)"
    with leaves [of w] strip.hyps(4) show "u \<le> w" by auto
  qed
  then have "decode V (v # s) = insert {u, v} (decode (V - {u}) s)"
    by (simp add: decode_Cons)
  with E valid show ?case by simp
qed

lemma tree_has_prufer:
  "is_tree V E \<Longrightarrow> 2 \<le> card V \<Longrightarrow> \<exists>s. prufer_of V E s"
proof (induction "card V" arbitrary: V E)
  case 0
  then show ?case by simp
next
  case (Suc n)
  show ?case
  proof (cases "card V = 2")
    case True
    then show ?thesis using prufer_of.stop by blast
  next
    case False
    with Suc.prems(2) have three: "3 \<le> card V" by simp
    from Suc.prems(1) have fin: "finite V" and w: "edges_within V E"
      by (simp_all add: is_tree_def)
    have finE: "finite E" using edges_within_finite [OF fin w] .
    let ?L = "{u \<in> V. degree_in E u = 1}"
    from tree_has_leaf [OF Suc.prems] have ne: "?L \<noteq> {}" by auto
    have finL: "finite ?L" using fin by simp
    define u where "u = Min ?L"
    from Min_in [OF finL ne] have u: "u \<in> V" "degree_in E u = 1" by (simp_all add: u_def)
    have least: "\<forall>w \<in> V. degree_in E w = 1 \<longrightarrow> u \<le> w"
      using Min_le [OF finL] by (simp add: u_def)
    from u(2) obtain e where e: "{e \<in> E. u \<in> e} = {e}"
      by (auto simp: degree_in_def card_1_singleton_iff)
    then have eE: "e \<in> E" and ue: "u \<in> e" by auto
    from w eE obtain x y where xy: "x \<in> V" "y \<in> V" "x \<noteq> y" "e = {x, y}"
      unfolding edges_within_def by blast
    with ue obtain v where v: "e = {u, v}" by (auto simp: insert_commute)
    have t': "is_tree (V - {u}) (E - {{u, v}})"
      using tree_remove_leaf [OF Suc.prems(1) u] eE v by simp
    have "n = card (V - {u})" using Suc.hyps(2) fin u(1) by simp
    moreover have "2 \<le> card (V - {u})" using three fin u(1) by simp
    ultimately obtain s where "prufer_of (V - {u}) (E - {{u, v}}) s"
      using Suc.hyps(1) [OF _ t'] by blast
    with three u least eE v have "prufer_of V E (v # s)"
      by (intro prufer_of.strip [of V u]) simp_all
    then show ?thesis ..
  qed
qed

theorem decode_inj:
  assumes "valid A s" and "valid A t" and "decode A s = decode A t"
  shows "s = t"
proof -
  have "prufer_of A (decode A s) s" using decode_prufer [OF assms(1)] .
  moreover have "prufer_of A (decode A s) t" using decode_prufer [OF assms(2)] assms(3) by simp
  ultimately show ?thesis using prufer_unique decode_finite [OF assms(1)] by blast
qed

theorem decode_surj:
  assumes "is_tree A E" and "2 \<le> card A"
  shows "\<exists>s. valid A s \<and> decode A s = E"
proof -
  from tree_has_prufer [OF assms] obtain s where "prufer_of A E s" ..
  from prufer_decode [OF this assms(1)] show ?thesis by blast
qed

subsubsection \<open>The source computes the tree of the sequence\<close>

declare upt_Suc [simp del]

lemma init_degree_deg_of: "init_degree n = deg_of n {1..n} []"
proof
  fix w
  show "init_degree n w = deg_of n {1..n} [] w"
  proof (cases "w \<in> {1..n}")
    case True
    then have "(w, 1) \<in> set (map (\<lambda>i. (i, 1::int)) [1 ..< Suc n])" by auto
    moreover have "distinct (map fst (map (\<lambda>i. (i, 1::int)) [1 ..< Suc n]))"
      by (simp add: o_def)
    ultimately have "init_degree n w = Some 1"
      unfolding init_degree_def by (rule map_of_is_SomeI [rotated])
    with True show ?thesis by (simp add: deg_of_def)
  next
    case False
    then have "w \<notin> fst ` set (map (\<lambda>i. (i, 1::int)) [1 ..< Suc n])" by auto
    then have "init_degree n w = None"
      unfolding init_degree_def by (simp add: map_of_eq_None_iff del: set_map)
    with False show ?thesis by (auto simp: deg_of_def)
  qed
qed

lemma count_loop_deg_of:
  "set s \<subseteq> A \<Longrightarrow> count_loop (deg_of n A t) s = Inr (deg_of n A (t @ s))"
proof (induction s arbitrary: t)
  case Nil
  then show ?case by simp
next
  case (Cons v s)
  then have v: "v \<in> A" and s: "set s \<subseteq> A" by simp_all
  have "(deg_of n A t)(v \<mapsto> 1 + int (count_list t v) + 1) = deg_of n A (t @ [v])"
    using v by (auto simp: deg_of_def fun_eq_iff)
  with Cons.IH [OF s, of "t @ [v]"] v show ?case
    by (simp add: deg_of_def)
qed

lemma find_least:
  assumes B: "B \<noteq> {}" and P: "\<And>w. 1 \<le> w \<Longrightarrow> w \<le> n \<Longrightarrow> P w = (w \<in> B)"
    and sub: "B \<subseteq> {1..n}"
  shows "find P [1 ..< Suc n] = Some (Min B)"
proof -
  have fin: "finite B" using sub by (rule finite_subset) simp
  let ?m = "Min B"
  have m: "?m \<in> B" using Min_in [OF fin B] .
  with sub have m1: "1 \<le> ?m" and mn: "?m \<le> n" by auto
  have "?m - 1 < length [1 ..< Suc n]" using m1 mn by simp
  moreover have "P ([1 ..< Suc n] ! (?m - 1))" using m1 mn m P by simp
  moreover have "?m = [1 ..< Suc n] ! (?m - 1)" using m1 mn by simp
  moreover have "\<forall>j < ?m - 1. \<not> P ([1 ..< Suc n] ! j)"
  proof (intro allI impI)
    fix j assume j: "j < ?m - 1"
    then have "Suc j < ?m" by simp
    then have "Suc j \<notin> B" using Min_le [OF fin, of "Suc j"] by auto
    moreover have "[1 ..< Suc n] ! j = Suc j" using j mn by simp
    ultimately show "\<not> P ([1 ..< Suc n] ! j)" using P [of "Suc j"] j mn by simp
  qed
  ultimately show ?thesis unfolding find_Some_iff by blast
qed

lemma deg_of_leaf:
  "1 \<le> w \<Longrightarrow> w \<le> n \<Longrightarrow> (deg_of n A s w = Some 1) = (w \<in> A - set s)"
  by (simp add: deg_of_def count_list_0_iff)

lemma edge_loop_decode:
  assumes "valid A s" and "A \<subseteq> {1..n}"
  shows "\<exists>es A'. edge_loop n s (deg_of n A s, acc) = Inr (deg_of n A' [], acc @ es)
     \<and> valid A' [] \<and> A' \<subseteq> A \<and> insert A' (frozenset ` set es) = decode A s"
  using assms
proof (induction s arbitrary: A acc)
  case Nil
  have "edge_loop n [] (deg_of n A [], acc) = Inr (deg_of n A [], acc @ [])
     \<and> valid A [] \<and> A \<subseteq> A \<and> insert A (frozenset ` set []) = decode A []"
    using Nil by simp
  then show ?case by blast
next
  case (Cons v s)
  define u where "u = Min (A - set (v # s))"
  note st = valid_step [OF Cons.prems(1) u_def]
  have f: "find (\<lambda>w. deg_of n A (v # s) w = Some 1) [1 ..< Suc n] = Some u"
    unfolding u_def
  proof (rule find_least)
    show "A - set (v # s) \<noteq> {}" using valid_unused(1) [OF Cons.prems(1)] .
    show "A - set (v # s) \<subseteq> {1..n}" using Cons.prems(2) by auto
  qed (rule deg_of_leaf)
  have un: "1 \<le> u" "u \<le> n" using st(1) Cons.prems(2) by auto
  have du: "deg_of n A (v # s) u = Some 1"
    using deg_of_leaf [OF un] st(1,2) by simp
  let ?d1 = "(deg_of n A (v # s))(u \<mapsto> 0)"
  have d1: "decrement (deg_of n A (v # s)) u = Inr ?d1"
    by (simp add: decrement_def du)
  have uv: "u \<noteq> v" using st(2) by auto
  have vA: "v \<in> A" using st(4) by simp
  have d1v: "?d1 v = Some (1 + int (count_list (v # s) v))"
    using uv vA by (simp add: deg_of_def)
  have "?d1(v \<mapsto> 1 + int (count_list (v # s) v) - 1) = deg_of n (A - {u}) s"
    using un uv vA by (auto simp: deg_of_def fun_eq_iff)
  then have d2: "decrement ?d1 v = Inr (deg_of n (A - {u}) s)"
    unfolding decrement_def d1v by simp
  have step: "edge_loop n (v # s) (deg_of n A (v # s), acc)
      = edge_loop n s (deg_of n (A - {u}) s, acc @ [(u, v)])"
    by (simp only: edge_loop.simps f option.case d1 d2 sum.case)
  have sub: "A - {u} \<subseteq> {1..n}" using Cons.prems(2) by auto
  from Cons.IH [OF st(3) sub, of "acc @ [(u, v)]"]
  obtain es A' where r: "edge_loop n s (deg_of n (A - {u}) s, acc @ [(u, v)])
        = Inr (deg_of n A' [], (acc @ [(u, v)]) @ es)"
    and A': "valid A' []" "A' \<subseteq> A - {u}"
    and dec: "insert A' (frozenset ` set es) = decode (A - {u}) s"
    by blast
  have "insert A' (frozenset ` set ((u, v) # es)) = decode A (v # s)"
    unfolding decode_Cons u_def [symmetric] dec [symmetric]
    by (auto simp: frozenset_def)
  moreover have "edge_loop n (v # s) (deg_of n A (v # s), acc)
      = Inr (deg_of n A' [], acc @ ((u, v) # es))"
    unfolding step r by simp
  moreover have "A' \<subseteq> A" using A'(2) by auto
  ultimately show ?case using A'(1) by blast
qed

lemma length_two: "length xs = 2 \<Longrightarrow> \<exists>a b. xs = [a, b]"
proof -
  assume "length xs = 2"
  then have l: "length xs = Suc (Suc 0)" by simp
  then obtain a ys where xs: "xs = a # ys" and "length ys = Suc 0"
    unfolding length_Suc_conv by blast
  then obtain b where "ys = [b]"
    unfolding length_Suc_conv by auto
  with xs show ?thesis by blast
qed

lemma last_pair:
  assumes "valid A []" and "A \<subseteq> {1..n}"
  shows "\<exists>a b. filter (\<lambda>w. deg_of n A [] w = Some 1) [1 ..< Suc n] = [a, b] \<and> A = {a, b}"
proof -
  let ?l = "filter (\<lambda>w. deg_of n A [] w = Some 1) [1 ..< Suc n]"
  have P: "(deg_of n A [] w = Some 1) = (w \<in> A)" for w
    by (simp add: deg_of_def)
  have "set ?l = {w \<in> {1..n}. w \<in> A}"
    unfolding P by auto
  with assms(2) have set: "set ?l = A" by auto
  have d: "distinct ?l" by simp
  from assms(1) have "card A = 2" by (simp add: valid_def)
  with set distinct_card [OF d] have "length ?l = 2" by simp
  from length_two [OF this] obtain a b where l: "?l = [a, b]" by blast
  from set have "A = {a, b}" unfolding l by simp
  with l show ?thesis by blast
qed

theorem prufer_to_tree_decode:
  assumes "length s + 2 = n" and "set s \<subseteq> {1..n}"
  shows "\<exists>es. prufer_to_tree s n = Inr es \<and> frozenset ` set es = decode {1..n} s"
proof -
  have v: "valid {1..n} s" using assms by (simp add: valid_def)
  have c: "count_loop (init_degree n) s = Inr (deg_of n {1..n} s)"
    unfolding init_degree_deg_of using count_loop_deg_of [OF assms(2), of n "[]"] by simp
  from edge_loop_decode [OF v subset_refl, of "[]"]
  obtain es A' where r: "edge_loop n s (deg_of n {1..n} s, []) = Inr (deg_of n A' [], es)"
    and A': "valid A' []" "A' \<subseteq> {1..n}"
    and dec: "insert A' (frozenset ` set es) = decode {1..n} s"
    by auto
  from last_pair [OF A'] obtain a b
    where l: "filter (\<lambda>w. deg_of n A' [] w = Some 1) [1 ..< Suc n] = [a, b]" and ab: "A' = {a, b}"
    by blast
  have res: "prufer_to_tree s n = Inr (es @ [(a, b)])"
    by (simp only: prufer_to_tree_def c r sum.case prod.case Let_def l)
      (simp add: numeral_2_eq_2)
  have "frozenset ` set (es @ [(a, b)]) = decode {1..n} s"
    unfolding dec [symmetric] ab by (auto simp: frozenset_def)
  then show ?thesis using res by blast
qed

lemma add_node_sets:
  "set (nodes (add_node G v)) = insert v (set (nodes G))" "edges (add_node G v) = edges G"
  by (auto simp: add_node_def)

lemma frozenset_mem: "(a, b) \<in> set es \<Longrightarrow> {a, b} \<in> frozenset ` set es"
  by (force simp: frozenset_def)

lemma add_edge_sets:
  "set (nodes (add_edge G u v)) = insert u (insert v (set (nodes G)))"
  "edge_set (add_edge G u v) = insert {u, v} (edge_set G)"
proof -
  show "set (nodes (add_edge G u v)) = insert u (insert v (set (nodes G)))"
    by (auto simp: add_edge_def Let_def add_node_sets)
  have e: "edges (add_node (add_node G u) v) = edges G" by (simp add: add_node_sets)
  show "edge_set (add_edge G u v) = insert {u, v} (edge_set G)"
  proof (cases "(u, v) \<in> set (edges G) \<or> (v, u) \<in> set (edges G)")
    case True
    then have "{u, v} \<in> edge_set G"
      unfolding edge_set_def using frozenset_mem [of u v] frozenset_mem [of v u]
      by (auto simp: insert_commute)
    with True show ?thesis
      by (auto simp: add_edge_def Let_def e edge_set_def)
  next
    case False
    then show ?thesis
      by (simp add: add_edge_def Let_def e edge_set_def frozenset_def)
  qed
qed

lemma add_nodes_from_sets:
  "set (nodes (add_nodes_from G vs)) = set (nodes G) \<union> set vs"
  "edges (add_nodes_from G vs) = edges G"
  unfolding add_nodes_from_def
  by (induction vs arbitrary: G) (auto simp: add_node_sets)

lemma add_edges_from_sets:
  "set (nodes (add_edges_from G es)) = set (nodes G) \<union> \<Union> (frozenset ` set es)"
  "edge_set (add_edges_from G es) = edge_set G \<union> frozenset ` set es"
  unfolding add_edges_from_def
  by (induction es arbitrary: G) (auto simp: add_edge_sets frozenset_def)

lemma trees_loop_map:
  "(\<forall>seq \<in> set seqs. \<exists>es. prufer_to_tree seq n = Inr es) \<Longrightarrow>
     trees_loop n seqs trees = Inr (trees @ map (tree_of n) seqs)"
proof (induction seqs arbitrary: trees)
  case Nil
  then show ?case by simp
next
  case (Cons seq seqs)
  then obtain es where es: "prufer_to_tree seq n = Inr es" by auto
  from Cons.prems have "\<forall>seq \<in> set seqs. \<exists>es. prufer_to_tree seq n = Inr es" by simp
  from Cons.IH [OF this] es show ?case by (simp add: tree_of_def Let_def)
qed

lemma set_prufer_sequences:
  "set (prufer_sequences n) = {s. length s = n - 2 \<and> set s \<subseteq> {1..n}}"
proof -
  have "list_all2 (\<lambda>x ys. x \<in> set ys) s (replicate k xs) = (length s = k \<and> set s \<subseteq> set xs)"
    for s :: "nat list" and k xs
  proof (induction k arbitrary: s)
    case 0
    then show ?case by auto
  next
    case (Suc k)
    then show ?case by (cases s) auto
  qed
  then show ?thesis
    unfolding prufer_sequences_def product_lists_set by auto
qed

lemma length_prufer_sequences: "length (prufer_sequences n) = n ^ (n - 2)"
proof -
  have "foldr (*) (replicate k m) 1 = m ^ k" for k m :: nat
    by (induction k) simp_all
  then show ?thesis
    unfolding prufer_sequences_def length_product_lists by simp
qed

lemma distinct_prufer_sequences: "distinct (prufer_sequences n)"
  unfolding prufer_sequences_def by (rule distinct_product_lists) simp

lemma valid_iff: "2 \<le> n \<Longrightarrow> valid {1..n} s = (length s = n - 2 \<and> set s \<subseteq> {1..n})"
  by (auto simp: valid_def)

lemma tree_of_sets:
  assumes "2 \<le> n" and "valid {1..n} s"
  shows "edge_set (tree_of n s) = decode {1..n} s" and "set (nodes (tree_of n s)) = {1..n}"
proof -
  from assms have "length s + 2 = n" and sub: "set s \<subseteq> {1..n}" by (auto simp: valid_def)
  from prufer_to_tree_decode [OF this] obtain es
    where es: "prufer_to_tree s n = Inr es" and dec: "frozenset ` set es = decode {1..n} s"
    by blast
  have "edge_set (add_nodes_from empty_graph [1 ..< Suc n]) = {}"
    by (simp add: edge_set_def add_nodes_from_sets empty_graph_def)
  then show "edge_set (tree_of n s) = decode {1..n} s"
    by (simp add: tree_of_def es add_edges_from_sets dec)
  have "\<Union> (frozenset ` set es) \<subseteq> {1..n}"
    unfolding dec using decode_within [OF assms(2)] by auto
  then show "set (nodes (tree_of n s)) = {1..n}"
    by (auto simp: tree_of_def es add_edges_from_sets add_nodes_from_sets empty_graph_def)
qed

text \<open>
  Claim C1.  For every \<open>n \<ge> 2\<close>, \<^verbatim>\<open>all_labeled_trees(n)\<close> returns a list of exactly
  \<open>n ^ (n - 2)\<close> graphs; each is a tree on the node set \<open>{1..n}\<close> (connected, without
  cycle, with \<open>n - 1\<close> edges); no two graphs of the list have the same edge set; and every
  tree on \<open>{1..n}\<close> is the edge set of a graph of the list, so the list enumerates every
  labeled tree exactly once (1, 3 and 16 trees for \<open>n\<close> = 2, 3, 4).  \<^verbatim>\<open>prufer_to_tree\<close> maps
  every sequence of length \<open>n - 2\<close> over \<open>{1..n}\<close> to a tree whose Pr\"ufer sequence it is,
  and to the only such tree.
\<close>

theorem all_labeled_trees_cayley:
  assumes "2 \<le> n"
  shows "\<exists>trees. all_labeled_trees n = Inr trees
     \<and> length trees = n ^ (n - 2)
     \<and> (\<forall>G \<in> set trees. set (nodes G) = {1..n} \<and> is_tree {1..n} (edge_set G)
            \<and> card (edge_set G) = n - 1)
     \<and> distinct (map edge_set trees)
     \<and> edge_set ` set trees = {E. is_tree {1..n} E}
     \<and> (\<forall>seq. length seq = n - 2 \<and> set seq \<subseteq> {1..n} \<longrightarrow>
          (\<exists>es. prufer_to_tree seq n = Inr es
             \<and> is_tree {1..n} (frozenset ` set es)
             \<and> prufer_of {1..n} (frozenset ` set es) seq
             \<and> (\<forall>E. is_tree {1..n} E \<and> prufer_of {1..n} E seq \<longrightarrow> E = frozenset ` set es)))"
proof -
  let ?V = "{1..n}"
  let ?seqs = "prufer_sequences n"
  let ?trees = "map (tree_of n) ?seqs"
  have val: "valid ?V s" if "s \<in> set ?seqs" for s
  proof -
    from that have "length s = n - 2 \<and> set s \<subseteq> ?V"
      unfolding set_prufer_sequences by blast
    then show ?thesis unfolding valid_iff [OF assms] .
  qed
  have cardV: "2 \<le> card ?V" using assms by simp
  \<comment> \<open>the list the function returns\<close>
  have ok: "\<forall>seq \<in> set ?seqs. \<exists>es. prufer_to_tree seq n = Inr es"
  proof
    fix seq assume "seq \<in> set ?seqs"
    then have "length seq = n - 2" and sub: "set seq \<subseteq> ?V"
      unfolding set_prufer_sequences by blast+
    with assms have "length seq + 2 = n" by simp
    from prufer_to_tree_decode [OF this sub] show "\<exists>es. prufer_to_tree seq n = Inr es" by blast
  qed
  have two: "tree_of 2 [] = add_edge empty_graph 1 2"
    by code_simp
  have res: "all_labeled_trees n = Inr ?trees"
  proof (cases "n = 2")
    case True
    then show ?thesis
      by (simp add: all_labeled_trees_def prufer_sequences_def two)
  next
    case False
    with assms have "2 < n" by simp
    then show ?thesis
      using trees_loop_map [OF ok, of "[]"]
      by (simp add: all_labeled_trees_def prufer_sequences_def)
  qed
  have len: "length ?trees = n ^ (n - 2)" by (simp add: length_prufer_sequences)
  have sets: "map edge_set ?trees = map (decode ?V) ?seqs"
    using tree_of_sets(1) [OF assms val] by simp
  have each: "\<forall>G \<in> set ?trees. set (nodes G) = ?V \<and> is_tree ?V (edge_set G)
      \<and> card (edge_set G) = n - 1"
  proof
    fix G assume "G \<in> set ?trees"
    then obtain s where s: "s \<in> set ?seqs" and G: "G = tree_of n s" by auto
    have t: "is_tree ?V (edge_set G)"
      unfolding G tree_of_sets(1) [OF assms val [OF s]] using decode_tree [OF val [OF s]] .
    then have "card (edge_set G) = n - 1" by (simp add: is_tree_def)
    with t show "set (nodes G) = ?V \<and> is_tree ?V (edge_set G) \<and> card (edge_set G) = n - 1"
      unfolding G using tree_of_sets(2) [OF assms val [OF s]] by simp
  qed
  have inj: "inj_on (decode ?V) (set ?seqs)"
  proof (rule inj_onI)
    fix s t assume "s \<in> set ?seqs" "t \<in> set ?seqs" "decode ?V s = decode ?V t"
    then show "s = t" using decode_inj [OF val val] by blast
  qed
  have dist: "distinct (map edge_set ?trees)"
    unfolding sets using distinct_prufer_sequences inj by (simp add: distinct_map)
  have all: "edge_set ` set ?trees = {E. is_tree ?V E}"
  proof -
    have "edge_set ` set ?trees = decode ?V ` set ?seqs"
    proof -
      have "set (map edge_set ?trees) = set (map (decode ?V) ?seqs)" using sets by simp
      then show ?thesis by (simp only: set_map)
    qed
    also have "\<dots> = {E. is_tree ?V E}"
    proof (intro set_eqI iffI)
      fix E assume "E \<in> decode ?V ` set ?seqs"
      then show "E \<in> {E. is_tree ?V E}" using decode_tree val by auto
    next
      fix E assume "E \<in> {E. is_tree ?V E}"
      then have "is_tree ?V E" by simp
      from decode_surj [OF this cardV] obtain s where s: "valid ?V s" "decode ?V s = E" by blast
      from s(1) have "s \<in> set ?seqs"
        unfolding set_prufer_sequences valid_iff [OF assms] by simp
      with s(2) show "E \<in> decode ?V ` set ?seqs" by blast
    qed
    finally show ?thesis .
  qed
  have pruf: "\<forall>seq. length seq = n - 2 \<and> set seq \<subseteq> ?V \<longrightarrow>
          (\<exists>es. prufer_to_tree seq n = Inr es
             \<and> is_tree ?V (frozenset ` set es)
             \<and> prufer_of ?V (frozenset ` set es) seq
             \<and> (\<forall>E. is_tree ?V E \<and> prufer_of ?V E seq \<longrightarrow> E = frozenset ` set es))"
  proof (intro allI impI)
    fix seq assume a: "length seq = n - 2 \<and> set seq \<subseteq> ?V"
    then have v: "valid ?V seq" unfolding valid_iff [OF assms] .
    from a have sub: "set seq \<subseteq> ?V" by blast
    from a assms have "length seq + 2 = n" by simp
    from prufer_to_tree_decode [OF this sub] obtain es
      where es: "prufer_to_tree seq n = Inr es" and dec: "frozenset ` set es = decode ?V seq"
      by blast
    have "\<forall>E. is_tree ?V E \<and> prufer_of ?V E seq \<longrightarrow> E = frozenset ` set es"
      unfolding dec using prufer_decode by blast
    with es decode_tree [OF v] decode_prufer [OF v]
    show "\<exists>es. prufer_to_tree seq n = Inr es
             \<and> is_tree ?V (frozenset ` set es)
             \<and> prufer_of ?V (frozenset ` set es) seq
             \<and> (\<forall>E. is_tree ?V E \<and> prufer_of ?V E seq \<longrightarrow> E = frozenset ` set es)"
      unfolding dec [symmetric] by blast
  qed
  from res len each dist all pruf show ?thesis by blast
qed

theorem all_labeled_trees_cayley_witness:
  "(2::nat) \<le> 3
 \<and> all_labeled_trees 3 = Inr
      [\<lparr>nodes = [1, 2, 3], edges = [(2, 1), (1, 3)]\<rparr>,
       \<lparr>nodes = [1, 2, 3], edges = [(1, 2), (2, 3)]\<rparr>,
       \<lparr>nodes = [1, 2, 3], edges = [(1, 3), (2, 3)]\<rparr>]
 \<and> (\<exists>trees. all_labeled_trees 2 = Inr trees \<and> length trees = 1)
 \<and> (\<exists>trees. all_labeled_trees 3 = Inr trees \<and> length trees = 3
       \<and> distinct (map edge_set trees))
 \<and> (\<exists>trees. all_labeled_trees 4 = Inr trees \<and> length trees = 16
       \<and> distinct (map edge_set trees))"
proof -
  have h2: "(2::nat) \<le> 2" and h3: "(2::nat) \<le> 3" and h4: "(2::nat) \<le> 4" by simp_all
  have v: "all_labeled_trees 3 = Inr
      [\<lparr>nodes = [1, 2, 3], edges = [(2, 1), (1, 3)]\<rparr>,
       \<lparr>nodes = [1, 2, 3], edges = [(1, 2), (2, 3)]\<rparr>,
       \<lparr>nodes = [1, 2, 3], edges = [(1, 3), (2, 3)]\<rparr>]"
    by code_simp
  have p: "(2::nat) ^ (2 - 2) = 1" "(3::nat) ^ (3 - 2) = 3" "(4::nat) ^ (4 - 2) = 16" by simp_all
  from all_labeled_trees_cayley [OF h2]
  have t2: "\<exists>trees. all_labeled_trees 2 = Inr trees \<and> length trees = 1"
    unfolding p by (elim exE conjE) (rule exI, erule conjI, assumption)
  from all_labeled_trees_cayley [OF h3]
  have t3: "\<exists>trees. all_labeled_trees 3 = Inr trees \<and> length trees = 3
       \<and> distinct (map edge_set trees)"
    unfolding p by (elim exE conjE) (rule exI, erule conjI, erule conjI, assumption)
  from all_labeled_trees_cayley [OF h4]
  have t4: "\<exists>trees. all_labeled_trees 4 = Inr trees \<and> length trees = 16
       \<and> distinct (map edge_set trees)"
    unfolding p by (elim exE conjE) (rule exI, erule conjI, erule conjI, assumption)
  from h3 v t2 t3 t4 show ?thesis by (intro conjI)
qed

end
